theory Spec2Isabelle
  imports Complex_Main "HOL-Library.List_Lexorder"
begin

section \<open>Python exceptions\<close>

text \<open>
  The exceptions the modelled code can raise. A fallible operation returns
  \<open>py_error + 'a\<close>, with \<open>Inl\<close> for the raised exception.
\<close>

datatype py_error = NotImplementedError | IndexError | ValueError | TypeError | KeyError

section \<open>Dense vectors and matrices\<close>

text \<open>
  A rank-1 tensor is a list, a rank-2 tensor a list of rows. All numbers are exact
  reals or complex numbers: rounding of the 64-bit floating point numbers of the
  source is not modelled. Operations on operands whose shapes do not fit (an
  exception in the tensor library) are outside the modelled domain; every theorem
  below states the shapes it needs.
\<close>

type_synonym 'a vec = "'a list"
type_synonym 'a mat = "'a list list"

definition mk_mat :: "nat \<Rightarrow> nat \<Rightarrow> (nat \<Rightarrow> nat \<Rightarrow> 'a) \<Rightarrow> 'a mat" where
  "mk_mat r c f = map (\<lambda>i. map (\<lambda>j. f i j) [0..<c]) [0..<r]"

definition wf_mat :: "nat \<Rightarrow> nat \<Rightarrow> 'a mat \<Rightarrow> bool" where
  "wf_mat r c M = (length M = r \<and> list_all (\<lambda>row. length row = c) M)"

definition ncols :: "'a mat \<Rightarrow> nat" where
  "ncols M = (case M of [] \<Rightarrow> 0 | row # _ \<Rightarrow> length row)"

definition eye :: "nat \<Rightarrow> 'a::{zero,one} mat" where
  "eye n = mk_mat n n (\<lambda>i j. if i = j then 1 else 0)"

definition zeros_mat :: "nat \<Rightarrow> nat \<Rightarrow> 'a::zero mat" where
  "zeros_mat r c = mk_mat r c (\<lambda>i j. 0)"

definition linalg_diag :: "'a::zero vec \<Rightarrow> 'a mat" where
  "linalg_diag v = mk_mat (length v) (length v) (\<lambda>i j. if i = j then v ! i else 0)"

definition transpose_mat :: "'a mat \<Rightarrow> 'a mat" where
  "transpose_mat M = mk_mat (ncols M) (length M) (\<lambda>i j. M ! j ! i)"

definition matmul :: "'a::comm_ring_1 mat \<Rightarrow> 'a mat \<Rightarrow> 'a mat" where
  "matmul A B = mk_mat (length A) (ncols B) (\<lambda>i j. \<Sum>k = 0..<length B. A ! i ! k * B ! k ! j)"

definition madd :: "'a::comm_ring_1 mat \<Rightarrow> 'a mat \<Rightarrow> 'a mat" where
  "madd A B = map2 (map2 (+)) A B"

definition msub :: "'a::comm_ring_1 mat \<Rightarrow> 'a mat \<Rightarrow> 'a mat" where
  "msub A B = map2 (map2 (-)) A B"

definition smult :: "'a::comm_ring_1 \<Rightarrow> 'a mat \<Rightarrow> 'a mat" where
  "smult a M = map (map ((*) a)) M"

section \<open>Gate primitives (class TFGateBackend)\<close>

definition loss_X :: "real vec \<Rightarrow> real mat" where
  "loss_X transmissivity = (let D = map sqrt transmissivity in linalg_diag (D @ D))"

definition loss_Y :: "real vec \<Rightarrow> real \<Rightarrow> real mat" where
  "loss_Y transmissivity hbar =
     (let D = map (\<lambda>t. sqrt ((1 - t) * hbar / 2)) transmissivity in linalg_diag (D @ D))"

text \<open>
  The docstrings of \<open>loss_X\<close> and \<open>loss_Y\<close>: the channel is applied to a covariance
  matrix \<open>\<Sigma>\<close> as \<open>X \<Sigma> X\<^sup>T + Y\<close>.
\<close>

definition apply_channel :: "real mat \<Rightarrow> real mat \<Rightarrow> real mat \<Rightarrow> real mat" where
  "apply_channel X Y cov = madd (matmul (matmul X cov) (transpose_mat X)) Y"

definition thermal_X :: "real vec \<Rightarrow> real \<Rightarrow> py_error + (real mat \<times> real mat)" where
  "thermal_X nbar hbar = Inl NotImplementedError"

definition thermal_Y :: "real vec \<Rightarrow> real \<Rightarrow> py_error + (real mat \<times> real mat)" where
  "thermal_Y nbar hbar = Inl NotImplementedError"

section \<open>Basic facts about matrices\<close>

lemma length_mk_mat [simp]: "length (mk_mat r c f) = r"
  by (simp add: mk_mat_def)

lemma length_mk_mat_row [simp]: "i < r \<Longrightarrow> length (mk_mat r c f ! i) = c"
  by (simp add: mk_mat_def)

lemma mk_mat_nth [simp]: "i < r \<Longrightarrow> j < c \<Longrightarrow> mk_mat r c f ! i ! j = f i j"
  by (simp add: mk_mat_def)

lemma wf_mk_mat [simp]: "wf_mat r c (mk_mat r c f)"
  by (simp add: wf_mat_def mk_mat_def list_all_iff)

lemma mk_mat_cong:
  assumes "\<And>i j. i < r \<Longrightarrow> j < c \<Longrightarrow> f i j = g i j"
  shows "mk_mat r c f = mk_mat r c g"
  using assms by (simp add: mk_mat_def)

lemma wf_mat_rowD: "wf_mat r c M \<Longrightarrow> i < r \<Longrightarrow> length (M ! i) = c"
  by (simp add: wf_mat_def list_all_length)

lemma wf_mat_lengthD: "wf_mat r c M \<Longrightarrow> length M = r"
  by (simp add: wf_mat_def)

lemma wf_mat_eq_mk:
  assumes "wf_mat r c M"
  shows "M = mk_mat r c (\<lambda>i j. M ! i ! j)"
proof (rule nth_equalityI)
  show "length M = length (mk_mat r c (\<lambda>i j. M ! i ! j))"
    using assms by (simp add: wf_mat_def)
next
  fix i assume i: "i < length M"
  then have ir: "i < r" using assms by (simp add: wf_mat_def)
  show "M ! i = mk_mat r c (\<lambda>i j. M ! i ! j) ! i"
  proof (rule nth_equalityI)
    show "length (M ! i) = length (mk_mat r c (\<lambda>i j. M ! i ! j) ! i)"
      using assms ir by (simp add: wf_mat_rowD)
  next
    fix j assume "j < length (M ! i)"
    then have "j < c" using assms ir by (simp add: wf_mat_rowD)
    then show "M ! i ! j = mk_mat r c (\<lambda>i j. M ! i ! j) ! i ! j"
      using ir by simp
  qed
qed

lemma ncols_mk_mat [simp]: "0 < r \<Longrightarrow> ncols (mk_mat r c f) = c"
  by (cases r) (simp_all add: ncols_def mk_mat_def upt_conv_Cons del: upt_Suc)

lemma ncols_wf: "wf_mat r c M \<Longrightarrow> 0 < r \<Longrightarrow> ncols M = c"
  by (cases M) (auto simp: ncols_def wf_mat_def)

lemma mat_eqI:
  assumes "wf_mat r c A" "wf_mat r c B"
    and "\<And>i j. i < r \<Longrightarrow> j < c \<Longrightarrow> A ! i ! j = B ! i ! j"
  shows "A = B"
proof -
  have "A = mk_mat r c (\<lambda>i j. A ! i ! j)" using assms(1) by (rule wf_mat_eq_mk)
  also have "\<dots> = mk_mat r c (\<lambda>i j. B ! i ! j)" using assms(3) by (rule mk_mat_cong)
  also have "\<dots> = B" using assms(2) by (rule wf_mat_eq_mk [symmetric])
  finally show ?thesis .
qed

section \<open>Thermal channel\<close>

text \<open>
  Claim C9. Asking the gate-primitive library for the X or the Y matrix of the thermal
  channel raises NotImplementedError for every input: no call returns a matrix.
\<close>

theorem thermal_not_implemented:
  "thermal_X nbar hbar = Inl NotImplementedError
   \<and> thermal_Y nbar hbar = Inl NotImplementedError
   \<and> (\<nexists>m. thermal_X nbar hbar = Inr m) \<and> (\<nexists>m. thermal_Y nbar hbar = Inr m)"
  by (simp add: thermal_X_def thermal_Y_def)

lemma ncols_eye [simp]: "ncols (eye n :: 'a::{zero,one} mat) = n"
proof (cases "n = 0")
  case True
  then show ?thesis by (simp add: eye_def ncols_def mk_mat_def)
next
  case False
  then show ?thesis by (simp add: eye_def)
qed

lemma wf_eye [simp]: "wf_mat n n (eye n)"
  by (simp add: eye_def)

lemma length_eye [simp]: "length (eye n) = n"
  by (simp add: eye_def)

lemma eye_nth [simp]: "i < n \<Longrightarrow> j < n \<Longrightarrow> eye n ! i ! j = (if i = j then 1 else 0)"
  by (simp add: eye_def)

lemma transpose_eye [simp]: "transpose_mat (eye n) = eye n"
  unfolding transpose_mat_def by (simp add: eye_def[of n, symmetric] ) (auto simp: eye_def intro!: mk_mat_cong)

lemma wf_matmul: "wf_mat r (ncols B) (matmul A B)" if "length A = r"
  using that by (simp add: matmul_def)

lemma matmul_eye_left:
  assumes "wf_mat n c M"
  shows "matmul (eye n) M = (M :: 'a::comm_ring_1 mat)"
proof (cases "n = 0")
  case True
  then show ?thesis using assms by (simp add: matmul_def wf_mat_def mk_mat_def)
next
  case False
  then have nc: "ncols M = c" using assms by (simp add: ncols_wf)
  have len: "length M = n" using assms by (simp add: wf_mat_def)
  show ?thesis
  proof (rule mat_eqI [OF _ assms])
    show "wf_mat n c (matmul (eye n) M)" by (simp add: matmul_def nc)
  next
    fix i j assume ij: "i < n" "j < c"
    have "(\<Sum>k = 0..<n. eye n ! i ! k * M ! k ! j) = (\<Sum>k = 0..<n. if k = i then M ! k ! j else 0)"
      using ij by (intro sum.cong) auto
    also have "\<dots> = M ! i ! j" using ij by simp
    finally show "matmul (eye n) M ! i ! j = M ! i ! j"
      using ij by (simp add: matmul_def nc len)
  qed
qed

lemma matmul_eye_right:
  assumes "wf_mat r n M"
  shows "matmul M (eye n) = (M :: 'a::comm_ring_1 mat)"
proof (rule mat_eqI [OF _ assms])
  show "wf_mat r n (matmul M (eye n))" using assms by (simp add: matmul_def wf_mat_lengthD)
next
  fix i j assume ij: "i < r" "j < n"
  have "(\<Sum>k = 0..<n. M ! i ! k * eye n ! k ! j) = (\<Sum>k = 0..<n. if k = j then M ! i ! k else 0)"
    using ij by (intro sum.cong) auto
  also have "\<dots> = M ! i ! j" using ij by simp
  finally show "matmul M (eye n) ! i ! j = M ! i ! j"
    using ij assms by (simp add: matmul_def wf_mat_def)
qed

lemma madd_nth:
  assumes "wf_mat r c A" "wf_mat r c B" "i < r" "j < c"
  shows "madd A B ! i ! j = A ! i ! j + B ! i ! j"
  using assms by (simp add: madd_def wf_mat_def list_all_length)

lemma wf_madd:
  assumes "wf_mat r c A" "wf_mat r c B"
  shows "wf_mat r c (madd A B)"
  using assms by (auto simp: madd_def wf_mat_def list_all_length)

lemma madd_zeros_right:
  assumes "wf_mat r c M"
  shows "madd M (zeros_mat r c) = (M :: 'a::comm_ring_1 mat)"
proof (rule mat_eqI [OF _ assms])
  have z: "wf_mat r c (zeros_mat r c :: 'a mat)" by (simp add: zeros_mat_def)
  show "wf_mat r c (madd M (zeros_mat r c))" by (rule wf_madd [OF assms z])
  fix i j assume ij: "i < r" "j < c"
  show "madd M (zeros_mat r c) ! i ! j = M ! i ! j"
    using madd_nth [OF assms z ij] ij by (simp add: zeros_mat_def)
qed

lemma loss_X_ones: "loss_X (replicate N 1) = eye (2 * N)"
proof -
  have "replicate N (1::real) @ replicate N 1 = replicate (2 * N) 1"
    by (simp add: replicate_add [symmetric] mult_2)
  then have D: "map sqrt (replicate N (1::real)) @ map sqrt (replicate N 1) = replicate (2 * N) 1"
    by simp
  show ?thesis
    unfolding loss_X_def Let_def linalg_diag_def eye_def D
    by (simp only: length_replicate) (rule mk_mat_cong, simp)
qed

lemma loss_Y_ones: "loss_Y (replicate N 1) hbar = zeros_mat (2 * N) (2 * N)"
proof -
  have "replicate N (0::real) @ replicate N 0 = replicate (2 * N) 0"
    by (simp add: replicate_add [symmetric] mult_2)
  then have D: "map (\<lambda>t. sqrt ((1 - t) * hbar / 2)) (replicate N (1::real))
      @ map (\<lambda>t. sqrt ((1 - t) * hbar / 2)) (replicate N 1) = replicate (2 * N) 0"
    by simp
  show ?thesis
    unfolding loss_Y_def Let_def linalg_diag_def zeros_mat_def D
    by (simp add: mk_mat_def)
qed

section \<open>Lossy channel at full transmissivity\<close>

text \<open>
  Claim C10. For every mode count \<open>N\<close> and every \<open>hbar\<close>, on the all-ones transmissivity
  vector \<open>loss_X\<close> returns the \<open>2N \<times> 2N\<close> identity matrix and \<open>loss_Y\<close> the
  \<open>2N \<times> 2N\<close> zero matrix, so that the channel \<open>X \<Sigma> X\<^sup>T + Y\<close> returns every
  \<open>2N \<times> 2N\<close> covariance matrix unchanged.
\<close>

theorem loss_full_transmissivity:
  "loss_X (replicate N 1) = eye (2 * N)
   \<and> loss_Y (replicate N 1) hbar = zeros_mat (2 * N) (2 * N)
   \<and> (\<forall>cov. wf_mat (2 * N) (2 * N) cov \<longrightarrow>
        apply_channel (loss_X (replicate N 1)) (loss_Y (replicate N 1) hbar) cov = cov)"
  by (simp add: loss_X_ones loss_Y_ones apply_channel_def matmul_eye_left matmul_eye_right
      madd_zeros_right)


theorem loss_full_transmissivity_witness:
  "wf_mat (2 * 1) (2 * 1) [[3, 1], [1, 3 :: real]]
   \<and> loss_X [1] = [[1, 0], [0, 1]]
   \<and> loss_Y [1] 2 = [[0, 0], [0, 0]]
   \<and> apply_channel (loss_X (replicate 1 1)) (loss_Y (replicate 1 1) 2) [[3, 1], [1, 3]]
       = [[3, 1], [1, 3]]"
proof -
  have wf: "wf_mat (2 * 1) (2 * 1) [[3, 1], [1, 3 :: real]]"
    by (simp add: wf_mat_def)
  have X: "loss_X [1] = [[1, 0], [0, 1]]"
    by (simp add: loss_X_def Let_def linalg_diag_def mk_mat_def upt_rec)
  have Y: "loss_Y [1] 2 = [[0, 0], [0, 0]]"
    by (simp add: loss_Y_def Let_def linalg_diag_def mk_mat_def upt_rec)
  from loss_full_transmissivity [of 1 2] wf
  have "apply_channel (loss_X (replicate 1 1)) (loss_Y (replicate 1 1) 2) [[3, 1], [1, 3]]
       = [[3, 1], [1, 3]]"
    by blast
  with wf X Y show ?thesis by blast
qed

section \<open>Parameter collection (TrainPlugin.extract_parameters)\<close>

text \<open>
  A trainable tensor is a piece of storage holding a value. The identity of the storage
  is the field \<open>storage\<close>; two tensors can hold equal values in different storage.
  A circuit element exposes \<open>trainable_parameters\<close>, a dictionary from the kind of
  parameter to the list of its parameters of that kind.
\<close>



record 'v trainable =
  storage :: nat
  tensor_value :: 'v

record 'p circuit_element =
  trainable_parameters :: "string \<Rightarrow> 'p list option"

text \<open>
  Modelled from the spec: \<open>hash_tensor\<close> belongs to the backend, which is not among the
  sources. The spec keys parameters by the identity of their underlying storage, not by
  their value. \<open>None\<close> stands for the TypeError of a tensor that cannot be hashed, which
  the loop below catches; a trainable tensor can always be hashed.
\<close>

definition hash_tensor :: "'v trainable \<Rightarrow> nat option" where
  "hash_tensor p = Some (storage p)"

text \<open>
  The inner loop over the parameters of one item. \<open>params_dict\<close> is the dictionary in
  insertion order. A TypeError of \<open>h\<close> leaves the loop of this item (the \<open>except\<close>
  clause continues with the next item) and keeps what was inserted so far.
\<close>

fun extract_item :: "('p \<Rightarrow> 'h option) \<Rightarrow> ('h \<times> 'p) list \<Rightarrow> 'p list \<Rightarrow> ('h \<times> 'p) list" where
  "extract_item h params_dict [] = params_dict"
| "extract_item h params_dict (p # ps) =
     (case h p of
        None \<Rightarrow> params_dict
      | Some hash \<Rightarrow>
          extract_item h
            (if hash \<in> fst ` set params_dict then params_dict else params_dict @ [(hash, p)]) ps)"

text \<open>
  The outer loop. A kind that is missing from the dictionary of an item raises KeyError,
  which the function does not catch.
\<close>

fun extract_items ::
  "('p \<Rightarrow> 'h option) \<Rightarrow> string \<Rightarrow> ('h \<times> 'p) list \<Rightarrow> 'p circuit_element list
    \<Rightarrow> py_error + ('h \<times> 'p) list" where
  "extract_items h kind params_dict [] = Inr params_dict"
| "extract_items h kind params_dict (item # items) =
     (case trainable_parameters item kind of
        None \<Rightarrow> Inl KeyError
      | Some ps \<Rightarrow> extract_items h kind (extract_item h params_dict ps) items)"

definition extract_parameters ::
  "('p \<Rightarrow> 'h option) \<Rightarrow> 'p circuit_element list \<Rightarrow> string \<Rightarrow> py_error + 'p list" where
  "extract_parameters h items kind =
     (case extract_items h kind [] items of Inl e \<Rightarrow> Inl e | Inr params_dict \<Rightarrow> Inr (map snd params_dict))"

text \<open>
  TFOptimizerBackend._all_symplectic_parameters: a list of references, compared by the
  identity of the tensor they refer to, dereferenced at the end.
\<close>

record 'p circuit =
  symplectic_parameters :: "'p list"

definition all_symplectic_parameters :: "'v trainable circuit list \<Rightarrow> 'v trainable list" where
  "all_symplectic_parameters circuits =
     foldl (\<lambda>symp circ.
        foldl (\<lambda>symp s. if storage s \<in> storage ` set symp then symp else symp @ [s])
          symp (symplectic_parameters circ))
       [] circuits"

text \<open>All parameters of a kind that the items reference, in the order of the loops.\<close>

fun referenced :: "'p circuit_element list \<Rightarrow> string \<Rightarrow> 'p list" where
  "referenced [] kind = []"
| "referenced (item # items) kind =
     (case trainable_parameters item kind of None \<Rightarrow> [] | Some ps \<Rightarrow> ps) @ referenced items kind"

definition dict_ok :: "(nat \<times> 'v trainable) list \<Rightarrow> bool" where
  "dict_ok d = (distinct (map fst d) \<and> list_all (\<lambda>(k, p). k = storage p) d)"

lemma extract_item_keys:
  "fst ` set (extract_item hash_tensor d ps) = fst ` set d \<union> storage ` set ps"
  by (induction ps arbitrary: d) (auto simp: hash_tensor_def)

lemma extract_item_ok:
  "dict_ok d \<Longrightarrow> dict_ok (extract_item hash_tensor d ps)"
  by (induction ps arbitrary: d) (auto simp: hash_tensor_def dict_ok_def)

lemma extract_item_values:
  "snd ` set (extract_item hash_tensor d ps) \<subseteq> snd ` set d \<union> set ps"
proof (induction ps arbitrary: d)
  case Nil
  then show ?case by simp
next
  case (Cons p ps)
  show ?case
  proof (cases "storage p \<in> fst ` set d")
    case True
    then have "extract_item hash_tensor d (p # ps) = extract_item hash_tensor d ps"
      by (simp add: hash_tensor_def)
    moreover have "snd ` set (extract_item hash_tensor d ps) \<subseteq> snd ` set d \<union> set ps"
      by (rule Cons.IH)
    ultimately show ?thesis by auto
  next
    case False
    let ?d = "d @ [(storage p, p)]"
    from False have "extract_item hash_tensor d (p # ps) = extract_item hash_tensor ?d ps"
      by (simp add: hash_tensor_def)
    moreover have "snd ` set (extract_item hash_tensor ?d ps) \<subseteq> snd ` set ?d \<union> set ps"
      by (rule Cons.IH)
    moreover have "snd ` set ?d = insert p (snd ` set d)" by simp
    ultimately show ?thesis by auto
  qed
qed

lemma extract_item_known:
  "storage ` set ps \<subseteq> fst ` set d \<Longrightarrow> extract_item hash_tensor d ps = d"
  by (induction ps arbitrary: d) (auto simp: hash_tensor_def)

lemma extract_items_append:
  "extract_items h kind d (xs @ ys) =
     (case extract_items h kind d xs of Inl e \<Rightarrow> Inl e | Inr d' \<Rightarrow> extract_items h kind d' ys)"
  by (induction xs arbitrary: d) (auto split: option.splits)

lemma extract_items_Inr:
  assumes "list_all (\<lambda>item. trainable_parameters item kind \<noteq> None) items" "dict_ok d"
  shows "\<exists>d'. extract_items hash_tensor kind d items = Inr d' \<and> dict_ok d'
     \<and> fst ` set d' = fst ` set d \<union> storage ` set (referenced items kind)
     \<and> snd ` set d' \<subseteq> snd ` set d \<union> set (referenced items kind)"
  using assms
proof (induction items arbitrary: d)
  case Nil
  then show ?case by simp
next
  case (Cons item items)
  then obtain ps where ps: "trainable_parameters item kind = Some ps" by auto
  let ?d = "extract_item hash_tensor d ps"
  have ok: "dict_ok ?d" using Cons.prems(2) by (rule extract_item_ok)
  from Cons.prems(1) have "list_all (\<lambda>item. trainable_parameters item kind \<noteq> None) items"
    by simp
  from Cons.IH [OF this ok] obtain d' where d':
    "extract_items hash_tensor kind ?d items = Inr d'" "dict_ok d'"
    "fst ` set d' = fst ` set ?d \<union> storage ` set (referenced items kind)"
    "snd ` set d' \<subseteq> snd ` set ?d \<union> set (referenced items kind)"
    by blast
  have "fst ` set d' = fst ` set d \<union> storage ` set (referenced (item # items) kind)"
    using d'(3) by (auto simp: ps extract_item_keys)
  moreover have "snd ` set d' \<subseteq> snd ` set d \<union> set (referenced (item # items) kind)"
    using d'(4) extract_item_values [of d ps] by (auto simp: ps)
  moreover have "extract_items hash_tensor kind d (item # items) = Inr d'"
    using d'(1) by (simp add: ps)
  ultimately show ?case using d'(2) by blast
qed

lemma dict_ok_storage: "dict_ok d \<Longrightarrow> map storage (map snd d) = map fst d"
  by (induction d) (auto simp: dict_ok_def)


lemma filter_distinct_one:
  assumes "distinct (map f xs)" "x \<in> set xs"
  shows "length (filter (\<lambda>q. f q = f x) xs) = 1"
  using assms
proof (induction xs)
  case Nil
  then show ?case by simp
next
  case (Cons y ys)
  show ?case
  proof (cases "f y = f x")
    case True
    then have "f x \<notin> f ` set ys" using Cons.prems(1) by simp
    then have "filter (\<lambda>q. f q = f x) ys = []"
      unfolding filter_empty_conv by (metis imageI)
    then show ?thesis using True by simp
  next
    case False
    then have "x \<in> set ys" using Cons.prems(2) by auto
    then show ?thesis using Cons.IH Cons.prems(1) False by simp
  qed
qed

lemma symp_inner:
  fixes symp :: "'v trainable list"
  defines "step \<equiv> (\<lambda>symp s. if storage s \<in> storage ` set symp then symp else symp @ [s])"
  assumes "distinct (map storage symp)"
  shows "distinct (map storage (foldl step symp ps))
     \<and> storage ` set (foldl step symp ps) = storage ` set symp \<union> storage ` set ps"
  using assms(2)
proof (induction ps arbitrary: symp)
  case Nil
  then show ?case by simp
next
  case (Cons p ps)
  have d: "distinct (map storage (step symp p))"
    using Cons.prems by (auto simp: step_def)
  have s: "storage ` set (step symp p) = insert (storage p) (storage ` set symp)"
    by (auto simp: step_def)
  from Cons.IH [OF d] s show ?case by auto
qed

lemma symp_outer:
  fixes symp :: "'v trainable list"
  assumes "distinct (map storage symp)"
  shows "distinct (map storage (foldl (\<lambda>symp circ.
        foldl (\<lambda>symp s. if storage s \<in> storage ` set symp then symp else symp @ [s])
          symp (symplectic_parameters circ)) symp circuits))
     \<and> storage ` set (foldl (\<lambda>symp circ.
        foldl (\<lambda>symp s. if storage s \<in> storage ` set symp then symp else symp @ [s])
          symp (symplectic_parameters circ)) symp circuits)
       = storage ` set symp \<union> storage ` set (concat (map symplectic_parameters circuits))"
  using assms
proof (induction circuits arbitrary: symp)
  case Nil
  then show ?case by simp
next
  case (Cons c cs)
  let ?inner = "foldl (\<lambda>symp s. if storage s \<in> storage ` set symp then symp else symp @ [s])
          symp (symplectic_parameters c)"
  from symp_inner [OF Cons.prems, of "symplectic_parameters c"]
  have d: "distinct (map storage ?inner)"
    and s: "storage ` set ?inner = storage ` set symp \<union> storage ` set (symplectic_parameters c)"
    by blast+
  from Cons.IH [OF d] s show ?case by (simp add: Un_assoc image_Un)
qed

text \<open>
  Claim C7. When every item has parameters of the requested kind, parameter collection
  returns a list in which every referenced parameter occurs exactly once, counted by the
  identity of its storage and not by its value (so two parameters in different storage
  are both kept, whatever their values), and registering a further circuit element whose
  parameters are all referenced already changes nothing in the result. The collection of
  symplectic parameters of the TensorFlow backend deduplicates by storage identity too.
\<close>

theorem extract_parameters_dedup:
  assumes "list_all (\<lambda>item. trainable_parameters item kind \<noteq> None) items"
  shows "\<exists>out. extract_parameters hash_tensor items kind = Inr out
      \<and> distinct (map storage out)
      \<and> set out \<subseteq> set (referenced items kind)
      \<and> (\<forall>p \<in> set (referenced items kind).
            length (filter (\<lambda>q. storage q = storage p) out) = 1)
      \<and> (\<forall>item' ps'. trainable_parameters item' kind = Some ps'
            \<and> storage ` set ps' \<subseteq> storage ` set (referenced items kind)
            \<longrightarrow> extract_parameters hash_tensor (items @ [item']) kind = Inr out)
      \<and> distinct (map storage (all_symplectic_parameters circuits))
      \<and> storage ` set (all_symplectic_parameters circuits)
          = storage ` set (concat (map symplectic_parameters circuits))"
proof -
  have ok0: "dict_ok ([] :: (nat \<times> 'a trainable) list)" by (simp add: dict_ok_def)
  from extract_items_Inr [OF assms ok0] obtain d where d:
    "extract_items hash_tensor kind [] items = Inr d" "dict_ok d"
    "fst ` set d = storage ` set (referenced items kind)"
    "snd ` set d \<subseteq> set (referenced items kind)"
    by auto
  let ?out = "map snd d"
  have keys: "map storage ?out = map fst d" using d(2) by (rule dict_ok_storage)
  have 1: "extract_parameters hash_tensor items kind = Inr ?out"
    by (simp add: extract_parameters_def d(1))
  have "distinct (map fst d)" using d(2) by (simp add: dict_ok_def)
  then have 2: "distinct (map storage ?out)" by (simp only: keys)
  have 3: "set ?out \<subseteq> set (referenced items kind)" using d(4) by simp
  have img: "storage ` set ?out = storage ` set (referenced items kind)"
    using d(3) keys by (metis list.set_map)
  have 4: "\<forall>p \<in> set (referenced items kind).
            length (filter (\<lambda>q. storage q = storage p) ?out) = 1"
  proof
    fix p assume "p \<in> set (referenced items kind)"
    then have "storage p \<in> storage ` set ?out" using img by blast
    then obtain q where q: "q \<in> set ?out" "storage q = storage p" by (metis imageE)
    from filter_distinct_one [OF 2 q(1)] q(2)
    show "length (filter (\<lambda>q. storage q = storage p) ?out) = 1" by simp
  qed
  have 5: "\<forall>item' ps'. trainable_parameters item' kind = Some ps'
            \<and> storage ` set ps' \<subseteq> storage ` set (referenced items kind)
            \<longrightarrow> extract_parameters hash_tensor (items @ [item']) kind = Inr ?out"
  proof (intro allI impI)
    fix item' :: "'a trainable circuit_element" and ps'
    assume a: "trainable_parameters item' kind = Some ps'
            \<and> storage ` set ps' \<subseteq> storage ` set (referenced items kind)"
    then have "extract_item hash_tensor d ps' = d"
      using d(3) by (intro extract_item_known) simp
    then have "extract_items hash_tensor kind [] (items @ [item']) = Inr d"
      using a by (simp add: extract_items_append d(1))
    then show "extract_parameters hash_tensor (items @ [item']) kind = Inr ?out"
      by (simp add: extract_parameters_def)
  qed
  have "distinct (map storage ([] :: 'b trainable list))" by simp
  from symp_outer [OF this, of circuits]
  have 6: "distinct (map storage (all_symplectic_parameters circuits))"
    and 7: "storage ` set (all_symplectic_parameters circuits)
          = storage ` set (concat (map symplectic_parameters circuits))"
    by (simp_all add: all_symplectic_parameters_def)
  from 1 2 3 4 5 6 7 show ?thesis by blast
qed

theorem extract_parameters_dedup_witness:
  "list_all (\<lambda>item. trainable_parameters item ''symplectic'' \<noteq> None)
     [\<lparr>trainable_parameters = [''symplectic'' \<mapsto>
          [\<lparr>storage = 0, tensor_value = 5::int\<rparr>, \<lparr>storage = 1, tensor_value = 5\<rparr>]]\<rparr>,
      \<lparr>trainable_parameters = [''symplectic'' \<mapsto> [\<lparr>storage = 0, tensor_value = 5\<rparr>]]\<rparr>]
   \<and> extract_parameters hash_tensor
     [\<lparr>trainable_parameters = [''symplectic'' \<mapsto>
          [\<lparr>storage = 0, tensor_value = 5::int\<rparr>, \<lparr>storage = 1, tensor_value = 5\<rparr>]]\<rparr>,
      \<lparr>trainable_parameters = [''symplectic'' \<mapsto> [\<lparr>storage = 0, tensor_value = 5\<rparr>]]\<rparr>]
     ''symplectic''
     = Inr [\<lparr>storage = 0, tensor_value = 5\<rparr>, \<lparr>storage = 1, tensor_value = 5\<rparr>]
   \<and> extract_parameters hash_tensor
     ([\<lparr>trainable_parameters = [''symplectic'' \<mapsto>
          [\<lparr>storage = 0, tensor_value = 5::int\<rparr>, \<lparr>storage = 1, tensor_value = 5\<rparr>]]\<rparr>,
       \<lparr>trainable_parameters = [''symplectic'' \<mapsto> [\<lparr>storage = 0, tensor_value = 5\<rparr>]]\<rparr>]
      @ [\<lparr>trainable_parameters = [''symplectic'' \<mapsto> [\<lparr>storage = 1, tensor_value = 5\<rparr>]]\<rparr>])
     ''symplectic''
     = Inr [\<lparr>storage = 0, tensor_value = 5\<rparr>, \<lparr>storage = 1, tensor_value = 5\<rparr>]"
proof -
  let ?p = "\<lparr>storage = 0, tensor_value = 5::int\<rparr>"
  let ?q = "\<lparr>storage = 1, tensor_value = 5::int\<rparr>"
  let ?items = "[\<lparr>trainable_parameters = [''symplectic'' \<mapsto> [?p, ?q]]\<rparr>,
      \<lparr>trainable_parameters = [''symplectic'' \<mapsto> [?p]]\<rparr>]"
  let ?item' = "\<lparr>trainable_parameters = [''symplectic'' \<mapsto> [?q]]\<rparr>"
  have h: "list_all (\<lambda>item. trainable_parameters item ''symplectic'' \<noteq> None) ?items"
    by simp
  have e: "extract_parameters hash_tensor ?items ''symplectic'' = Inr [?p, ?q]"
    by (simp add: extract_parameters_def hash_tensor_def)
  from extract_parameters_dedup [OF h, where circuits = "[] :: int trainable circuit list"]
  obtain out where out: "extract_parameters hash_tensor ?items ''symplectic'' = Inr out"
    and again: "\<forall>item' ps'. trainable_parameters item' ''symplectic'' = Some ps'
            \<and> storage ` set ps' \<subseteq> storage ` set (referenced ?items ''symplectic'')
            \<longrightarrow> extract_parameters hash_tensor (?items @ [item']) ''symplectic'' = Inr out"
    by (elim exE conjE) (rule that, assumption+)
  from out e have o: "out = [?p, ?q]" by simp
  have "trainable_parameters ?item' ''symplectic'' = Some [?q]
      \<and> storage ` set [?q] \<subseteq> storage ` set (referenced ?items ''symplectic'')"
    by simp
  then have x: "extract_parameters hash_tensor (?items @ [?item']) ''symplectic'' = Inr out"
    by (rule again [rule_format])
  show ?thesis
    by (intro conjI) (rule h, rule e, rule x [unfolded o])
qed

section \<open>Fock-amplitude recursion engine (TFCircuitBackend._recursive_state)\<close>

text \<open>
  A dense complex tensor: its shape and its cells, addressed by multi-index. Only the
  cells whose multi-index lies within the shape belong to the tensor.
\<close>


record tensor =
  shape :: "nat list"
  cells :: "nat list \<Rightarrow> complex"

definition in_bounds :: "nat list \<Rightarrow> nat list \<Rightarrow> bool" where
  "in_bounds shp idx = list_all2 (<) idx shp"

text \<open>
  \<open>np.zeros\<close> raises ValueError on a negative dimension; a dimension 0 gives a tensor
  without cells. Writing a cell outside the shape raises IndexError.
\<close>

definition np_zeros :: "int list \<Rightarrow> py_error + tensor" where
  "np_zeros dims =
     (if list_ex (\<lambda>d. d < 0) dims then Inl ValueError
      else Inr \<lparr>shape = map nat dims, cells = (\<lambda>idx. 0)\<rparr>)"

definition setitem :: "tensor \<Rightarrow> nat list \<Rightarrow> complex \<Rightarrow> py_error + tensor" where
  "setitem t idx v =
     (if in_bounds (shape t) idx then Inr (t\<lparr>cells := (cells t)(idx := v)\<rparr>) else Inl IndexError)"

text \<open>All multi-indices of a shape, the last axis running fastest.\<close>

fun ndindex :: "nat list \<Rightarrow> nat list list" where
  "ndindex [] = [[]]"
| "ndindex (d # ds) = concat (map (\<lambda>i. map ((#) i) (ndindex ds)) [0..<d])"

text \<open>
  Modelled from the spec: \<open>utils.fill_amplitudes\<close> is not among the sources. The spec
  asks for a three-term recurrence that advances one axis \<open>k\<close> at a time,
  \<open>tensor[idx] = (B[k] tensor[idx - e\<^sub>k] + \<Sum>\<^sub>j A[k,j] sqrt(idx[j]') tensor[idx - e\<^sub>k - e\<^sub>j]) / sqrt(idx[k])\<close>
  with \<open>idx' = idx - e\<^sub>k\<close>, where terms with a negative index contribute zero, evaluated
  by a nested ascending loop over all axes. At a multi-index with several non-zero
  entries the fill has to advance one of the axes; the model advances the lowest one.
  For a symmetric \<open>A\<close> the tensor does not depend on this: it then satisfies the
  recurrence along every axis, and the recurrence determines the tensor.
\<close>

fun pivot :: "nat list \<Rightarrow> nat option" where
  "pivot [] = None"
| "pivot (n # ns) = (if 0 < n then Some 0 else map_option Suc (pivot ns))"

definition dec :: "nat list \<Rightarrow> nat \<Rightarrow> nat list" where
  "dec idx k = idx[k := idx ! k - 1]"

definition csqrt_nat :: "nat \<Rightarrow> complex" where
  "csqrt_nat n = complex_of_real (sqrt (real n))"

definition recurrence_rhs ::
  "complex mat \<Rightarrow> complex vec \<Rightarrow> (nat list \<Rightarrow> complex) \<Rightarrow> nat list \<Rightarrow> nat \<Rightarrow> complex" where
  "recurrence_rhs A B t idx k =
     (let ki = dec idx k in
      (B ! k * t ki
        + (\<Sum>j\<leftarrow>[0..<length idx].
             if ki ! j = 0 then 0 else A ! k ! j * csqrt_nat (ki ! j) * t (dec ki j)))
      / csqrt_nat (idx ! k))"

definition fill_cell :: "complex mat \<Rightarrow> complex vec \<Rightarrow> tensor \<Rightarrow> nat list \<Rightarrow> tensor" where
  "fill_cell A B state idx =
     (case pivot idx of
        None \<Rightarrow> state
      | Some k \<Rightarrow> state\<lparr>cells := (cells state)(idx := recurrence_rhs A B (cells state) idx k)\<rparr>)"

definition fill_amplitudes :: "tensor \<Rightarrow> complex mat \<Rightarrow> complex vec \<Rightarrow> int list \<Rightarrow> tensor" where
  "fill_amplitudes state A B max_photons =
     foldl (fill_cell A B) state (ndindex (map (\<lambda>m. nat (m + 1)) max_photons))"

text \<open>
  The forward pass of \<open>_recursive_state\<close>. \<open>mixed\<close> doubles the axes.
\<close>

definition recursive_state ::
  "complex mat \<Rightarrow> complex vec \<Rightarrow> complex \<Rightarrow> int list \<Rightarrow> py_error + tensor" where
  "recursive_state A B C cutoffs =
     (let mixed = (length B = 2 * length cutoffs);
          cutoffs_minus_1 =
            map (\<lambda>c. c - 1) cutoffs @ (if mixed then map (\<lambda>c. c - 1) cutoffs else [])
      in case np_zeros (cutoffs @ (if mixed then cutoffs else [])) of
           Inl e \<Rightarrow> Inl e
         | Inr state \<Rightarrow>
            (case setitem state
                    (replicate (length cutoffs + (if mixed then length cutoffs else 0)) 0) C of
               Inl e \<Rightarrow> Inl e
             | Inr state \<Rightarrow> Inr (fill_amplitudes state A B cutoffs_minus_1)))"

lemma in_bounds_zero:
  "in_bounds shp (replicate (length shp) 0) \<longleftrightarrow> list_all (\<lambda>d. 0 < d) shp"
  by (induction shp) (simp_all add: in_bounds_def)

lemma in_bounds_zero_map_nat:
  "in_bounds (map nat ds) (replicate (length ds) 0) \<longleftrightarrow> list_all (\<lambda>d. 0 < d) ds"
  using in_bounds_zero [of "map nat ds"] by (simp add: list_all_iff)

text \<open>
  Claim C8, as amended. A call of the recursion engine whose cutoffs contain a
  non-positive entry fails before the recursion fill runs and returns no tensor: with
  the ValueError of the allocation when a cutoff is negative, and otherwise with the
  IndexError of the write of \<open>C\<close> at the all-zero multi-index into the zero-size tensor
  that has been allocated by then.
\<close>

theorem recursive_state_rejects:
  assumes "list_ex (\<lambda>c. c \<le> 0) cutoffs"
  shows "recursive_state A B C cutoffs =
     (if list_ex (\<lambda>c. c < 0) cutoffs then Inl ValueError else Inl IndexError)"
proof (cases "list_ex (\<lambda>c. c < 0) cutoffs")
  case True
  then show ?thesis
    by (simp add: recursive_state_def np_zeros_def Let_def)
next
  case False
  let ?mixed = "length B = 2 * length cutoffs"
  let ?dims = "cutoffs @ (if ?mixed then cutoffs else [])"
  have nz: "np_zeros ?dims = Inr \<lparr>shape = map nat ?dims, cells = (\<lambda>idx. 0)\<rparr>"
    using False by (simp add: np_zeros_def)
  have len: "length cutoffs + (if ?mixed then length cutoffs else 0) = length ?dims"
    by simp
  from assms obtain c where "c \<in> set cutoffs" "c \<le> 0"
    by (auto simp: list_ex_iff)
  then have "c \<in> set ?dims" "\<not> 0 < c" by auto
  then have "\<not> list_all (\<lambda>d. 0 < d) ?dims"
    unfolding list_all_iff by blast
  then have "\<not> in_bounds (map nat ?dims) (replicate (length ?dims) 0)"
    by (simp only: in_bounds_zero_map_nat not_False_eq_True)
  then have "setitem \<lparr>shape = map nat ?dims, cells = (\<lambda>idx. 0)\<rparr>
       (replicate (length cutoffs + (if ?mixed then length cutoffs else 0)) 0) C = Inl IndexError"
    unfolding len by (simp add: setitem_def)
  then show ?thesis using False
    unfolding recursive_state_def Let_def nz by simp
qed


theorem recursive_state_rejects_witness:
  "list_ex (\<lambda>c. c \<le> 0) [3, 0 :: int]
   \<and> recursive_state [[1 / 2, 0], [0, 1 / 2]] [3 / 10, 0] 1 [3, 0] = Inl IndexError
   \<and> list_ex (\<lambda>c. c \<le> 0) [- 1 :: int]
   \<and> recursive_state [[1 / 2]] [3 / 10] 1 [- 1] = Inl ValueError"
proof -
  have h1: "list_ex (\<lambda>c. c \<le> 0) [3, 0 :: int]" by simp
  have h2: "list_ex (\<lambda>c. c \<le> 0) [- 1 :: int]" by simp
  from recursive_state_rejects [OF h1, of "[[1 / 2, 0], [0, 1 / 2]]" "[3 / 10, 0]" 1]
  have 1: "recursive_state [[1 / 2, 0], [0, 1 / 2]] [3 / 10, 0] 1 [3, 0] = Inl IndexError"
    by simp
  from recursive_state_rejects [OF h2, of "[[1 / 2]]" "[3 / 10]" 1]
  have 2: "recursive_state [[1 / 2]] [3 / 10] 1 [- 1] = Inl ValueError"
    by simp
  from h1 1 h2 2 show ?thesis by blast
qed

text \<open>
  The claim as stated fails at the cutoffs \<open>[0]\<close>: the allocation returns a tensor (of
  shape \<open>[0]\<close>), and the error is the IndexError of the write that follows, not an
  argument check made before the allocation.
\<close>

theorem recursive_state_zero_cutoff_counterexample:
  "np_zeros [0] = Inr \<lparr>shape = [0], cells = (\<lambda>idx. 0)\<rparr>
   \<and> setitem \<lparr>shape = [0], cells = (\<lambda>idx. 0)\<rparr> [0] 1 = Inl IndexError
   \<and> recursive_state [[1 / 2]] [3 / 10] 1 [0] = Inl IndexError"
  by (simp add: recursive_state_def np_zeros_def setitem_def in_bounds_def)

subsection \<open>The loop of the recursion fill\<close>


lemma sorted_wrt_map_Cons:
  "sorted_wrt (<) (map ((#) (i::nat)) l) \<longleftrightarrow> sorted_wrt (<) l"
  by (simp add: sorted_wrt_map)




lemma pivot_replicate_zero [simp]: "pivot (replicate n 0) = None"
  by (induction n) simp_all

lemma length_dec [simp]: "length (dec idx k) = length idx"
  by (simp add: dec_def)





lemma shape_fill_cell [simp]: "shape (fill_cell A B state idx) = shape state"
  by (simp add: fill_cell_def split: option.splits)

lemma cells_fill_cell_other: "y \<noteq> idx \<Longrightarrow> cells (fill_cell A B state idx) y = cells state y"
  by (simp add: fill_cell_def split: option.splits)


lemma shape_foldl_fill [simp]: "shape (foldl (fill_cell A B) state xs) = shape state"
  by (induction xs arbitrary: state) simp_all

lemma cells_foldl_fill_other:
  "y \<notin> set xs \<Longrightarrow> cells (foldl (fill_cell A B) state xs) y = cells state y"
  by (induction xs arbitrary: state) (simp_all add: cells_fill_cell_other)




lemma alloc_positive:
  assumes "list_all (\<lambda>d. 0 < d) dims"
  shows "np_zeros dims = Inr \<lparr>shape = map nat dims, cells = (\<lambda>idx. 0)\<rparr>"
    and "setitem \<lparr>shape = map nat dims, cells = (\<lambda>idx. 0)\<rparr> (replicate (length dims) 0) C
     = Inr \<lparr>shape = map nat dims, cells = (\<lambda>idx. 0)(replicate (length dims) 0 := C)\<rparr>"
proof -
  have "\<not> d < 0" if "d \<in> set dims" for d
    using assms that unfolding list_all_iff by fastforce
  then have "\<not> list_ex (\<lambda>d. d < 0) dims" unfolding list_ex_iff by blast
  then show "np_zeros dims = Inr \<lparr>shape = map nat dims, cells = (\<lambda>idx. 0)\<rparr>"
    by (simp only: np_zeros_def if_False)
  have "in_bounds (map nat dims) (replicate (length dims) 0)"
    using assms by (simp only: in_bounds_zero_map_nat)
  then show "setitem \<lparr>shape = map nat dims, cells = (\<lambda>idx. 0)\<rparr> (replicate (length dims) 0) C
     = Inr \<lparr>shape = map nat dims, cells = (\<lambda>idx. 0)(replicate (length dims) 0 := C)\<rparr>"
    by (simp add: setitem_def)
qed

lemma max_photons_dims: "map (\<lambda>m. nat (m + 1)) (map (\<lambda>c. c - 1) cs) = map nat cs"
  by simp

lemma recursive_state_Inr:
  assumes "list_all (\<lambda>c. 0 < c) cutoffs"
    and "dims = cutoffs @ (if length B = 2 * length cutoffs then cutoffs else [])"
  shows "recursive_state A B C cutoffs =
     Inr (foldl (fill_cell A B)
       \<lparr>shape = map nat dims, cells = (\<lambda>idx. 0)(replicate (length dims) 0 := C)\<rparr>
       (ndindex (map nat dims)))"
proof (cases "length B = 2 * length cutoffs")
  case True
  then have dims: "dims = cutoffs @ cutoffs" using assms(2) by simp
  have pos: "list_all (\<lambda>d. 0 < d) (cutoffs @ cutoffs)" using assms(1) by simp
  have len: "length cutoffs + length cutoffs = length (cutoffs @ cutoffs)" by simp
  have m: "map (\<lambda>m. nat (m + 1)) (map (\<lambda>c. c - 1) cutoffs @ map (\<lambda>c. c - 1) cutoffs)
      = map nat (cutoffs @ cutoffs)"
    by simp
  show ?thesis
    unfolding recursive_state_def Let_def dims fill_amplitudes_def
    by (simp only: True simp_thms if_True alloc_positive [OF pos] len m sum.case)
next
  case False
  then have dims: "dims = cutoffs" using assms(2) by simp
  have len: "length cutoffs + 0 = length cutoffs" by simp
  have m: "map (\<lambda>m. nat (m + 1)) (map (\<lambda>c. c - 1) cutoffs @ []) = map nat cutoffs"
    by simp
  show ?thesis
    unfolding recursive_state_def Let_def dims fill_amplitudes_def
    by (simp only: False simp_thms if_False append_Nil2 alloc_positive [OF assms(1)] len
        max_photons_dims sum.case)
qed



subsection \<open>The recurrence along every axis\<close>

text \<open>
  The right-hand side of the recurrence along axis \<open>k\<close>, before the division by
  \<open>sqrt(idx[k])\<close>, as a function of the decremented multi-index \<open>w = idx - e\<^sub>k\<close>.
\<close>

lemma csqrt_nat_0 [simp]: "csqrt_nat 0 = 0"
  by (simp add: csqrt_nat_def)





lemma in_bounds_dec:
  assumes "in_bounds shp v"
  shows "in_bounds shp (dec v k)"
proof -
  have len: "length v = length shp" and lt: "\<And>i. i < length shp \<Longrightarrow> v ! i < shp ! i"
    using assms by (simp_all add: in_bounds_def list_all2_conv_all_nth)
  have "dec v k ! i < shp ! i" if "i < length shp" for i
  proof (cases "i = k")
    case True
    have "v ! k - 1 \<le> v ! k" by simp
    also have "v ! k < shp ! k" using lt that True by simp
    finally show ?thesis using True that len by (simp add: dec_def)
  next
    case False
    then show ?thesis using lt [OF that] by (simp add: dec_def)
  qed
  then show ?thesis using len by (simp add: in_bounds_def list_all2_conv_all_nth)
qed

lemma in_bounds_length: "in_bounds shp v \<Longrightarrow> length v = length shp"
  by (simp add: in_bounds_def list_all2_lengthD)

lemma sum_list_dec: "k < length v \<Longrightarrow> 0 < v ! k \<Longrightarrow> sum_list (dec v k) < sum_list v"
proof (induction v arbitrary: k)
  case Nil
  then show ?case by simp
next
  case (Cons a r)
  show ?case
  proof (cases k)
    case 0
    then show ?thesis using Cons.prems by (simp add: dec_def)
  next
    case (Suc k')
    then have "sum_list (dec r k') < sum_list r" using Cons by simp
    then show ?thesis using Suc by (simp add: dec_def)
  qed
qed

definition ladder ::
  "complex mat \<Rightarrow> complex vec \<Rightarrow> (nat list \<Rightarrow> complex) \<Rightarrow> nat \<Rightarrow> nat list \<Rightarrow> complex" where
  "ladder A B t k w =
     B ! k * t w + (\<Sum>j = 0..<length w. A ! k ! j * csqrt_nat (w ! j) * t (dec w j))"














text \<open>
  Modelled from the spec: the recurrence in the words of the spec, on integer
  multi-indices. \<open>e\<^sub>k\<close> is the unit step in axis \<open>k\<close>, \<open>idx' = idx - e\<^sub>k\<close>, the square root is
  taken of \<open>idx'[j]\<close>, and an entry at a multi-index with a negative component is zero.
\<close>

definition unit_step :: "nat \<Rightarrow> nat \<Rightarrow> int list" where
  "unit_step M k = map (\<lambda>i. if i = k then 1 else 0) [0..<M]"

definition idx_minus :: "int list \<Rightarrow> int list \<Rightarrow> int list" where
  "idx_minus x y = map2 (-) x y"

definition entry :: "(nat list \<Rightarrow> complex) \<Rightarrow> int list \<Rightarrow> complex" where
  "entry tensor idx = (if list_ex (\<lambda>i. i < 0) idx then 0 else tensor (map nat idx))"

definition recurrence_spec ::
  "complex mat \<Rightarrow> complex vec \<Rightarrow> (nat list \<Rightarrow> complex) \<Rightarrow> nat list \<Rightarrow> nat \<Rightarrow> complex" where
  "recurrence_spec A B tensor idx k =
     (let M = length idx;
          idx' = idx_minus (map int idx) (unit_step M k)
      in (B ! k * entry tensor idx'
           + (\<Sum>j = 0..<M. A ! k ! j * complex_of_real (sqrt (real_of_int (idx' ! j)))
                  * entry tensor (idx_minus idx' (unit_step M j))))
         / complex_of_real (sqrt (real (idx ! k))))"

lemma idx_minus_unit:
  assumes "length w = M" "j < M"
  shows "idx_minus (map int w) (unit_step M j) = (map int w)[j := int (w ! j) - 1]"
  using assms
  by (intro nth_equalityI) (simp_all add: idx_minus_def unit_step_def nth_list_update)

lemma entry_nat [simp]: "entry t (map int w) = t w"
proof -
  have "\<not> list_ex (\<lambda>i. i < 0) (map int w)" by (simp add: list_ex_iff)
  moreover have "map nat (map int w) = w" by (simp add: map_idI)
  ultimately show ?thesis by (simp only: entry_def if_False)
qed

lemma idx_minus_dec:
  assumes "length w = M" "j < M" "0 < w ! j"
  shows "idx_minus (map int w) (unit_step M j) = map int (dec w j)"
proof -
  have "int (w ! j - 1) = int (w ! j) - 1" using assms(3) by simp
  then show ?thesis
    unfolding idx_minus_unit [OF assms(1,2)] dec_def map_update by (rule arg_cong [OF sym])
qed

lemma entry_below_zero:
  assumes "length w = M" "j < M" "w ! j = 0"
  shows "entry t (idx_minus (map int w) (unit_step M j)) = 0"
proof -
  have "(map int w)[j := int (w ! j) - 1] ! j < 0" using assms by simp
  moreover have "j < length ((map int w)[j := int (w ! j) - 1])" using assms by simp
  ultimately have "list_ex (\<lambda>i. i < 0) ((map int w)[j := int (w ! j) - 1])"
    unfolding list_ex_iff by (metis nth_mem)
  then show ?thesis unfolding idx_minus_unit [OF assms(1,2)] by (simp add: entry_def)
qed

lemma recurrence_spec_ladder:
  assumes "k < length v" "0 < v ! k"
  shows "recurrence_spec A B t v k = ladder A B t k (dec v k) / csqrt_nat (v ! k)"
proof -
  define M where "M = length v"
  define w where "w = dec v k"
  have lw: "length w = M" by (simp add: w_def M_def)
  have i': "idx_minus (map int v) (unit_step M k) = map int w"
    unfolding w_def using assms by (intro idx_minus_dec) (simp_all add: M_def)
  have tm: "A ! k ! j * complex_of_real (sqrt (real_of_int (map int w ! j)))
        * entry t (idx_minus (map int w) (unit_step M j))
      = A ! k ! j * csqrt_nat (w ! j) * t (dec w j)" if "j \<in> {0..<M}" for j
  proof (cases "w ! j = 0")
    case True
    then show ?thesis using that lw by (simp add: entry_below_zero [of w M j])
  next
    case False
    then have "idx_minus (map int w) (unit_step M j) = map int (dec w j)"
      using that lw by (intro idx_minus_dec) simp_all
    then show ?thesis using that lw by (simp add: csqrt_nat_def)
  qed
  have "(\<Sum>j = 0..<M. A ! k ! j * complex_of_real (sqrt (real_of_int (map int w ! j)))
        * entry t (idx_minus (map int w) (unit_step M j)))
      = (\<Sum>j = 0..<M. A ! k ! j * csqrt_nat (w ! j) * t (dec w j))"
    using tm by (rule sum.cong [OF refl])
  then show ?thesis
    unfolding recurrence_spec_def Let_def M_def [symmetric] i'
    by (simp add: ladder_def w_def [symmetric] lw csqrt_nat_def)
qed


text \<open>
  The recurrence determines the tensor: two tensors that satisfy it along every axis
  and agree at the all-zero multi-index agree within the shape. The axis that a fill
  advances at a multi-index with several non-zero entries therefore does not matter.
\<close>

lemma ladder_cong:
  assumes "t1 w = t2 w"
    and "\<And>j. j < length w \<Longrightarrow> 0 < w ! j \<Longrightarrow> t1 (dec w j) = t2 (dec w j)"
  shows "ladder A B t1 k w = ladder A B t2 k w"
proof -
  have "A ! k ! j * csqrt_nat (w ! j) * t1 (dec w j) = A ! k ! j * csqrt_nat (w ! j) * t2 (dec w j)"
    if "j \<in> {0..<length w}" for j
  proof (cases "w ! j = 0")
    case True
    then show ?thesis by simp
  next
    case False
    then have "t1 (dec w j) = t2 (dec w j)" using that by (intro assms(2)) simp_all
    then show ?thesis by simp
  qed
  then have "(\<Sum>j = 0..<length w. A ! k ! j * csqrt_nat (w ! j) * t1 (dec w j))
      = (\<Sum>j = 0..<length w. A ! k ! j * csqrt_nat (w ! j) * t2 (dec w j))"
    by (rule sum.cong [OF refl])
  then show ?thesis by (simp only: ladder_def assms(1))
qed

lemma recurrence_spec_unique:
  assumes z: "t1 (replicate (length shp) 0) = t2 (replicate (length shp) 0)"
    and r1: "\<And>idx k. in_bounds shp idx \<Longrightarrow> k < length idx \<Longrightarrow> 1 \<le> idx ! k
        \<Longrightarrow> t1 idx = recurrence_spec A B t1 idx k"
    and r2: "\<And>idx k. in_bounds shp idx \<Longrightarrow> k < length idx \<Longrightarrow> 1 \<le> idx ! k
        \<Longrightarrow> t2 idx = recurrence_spec A B t2 idx k"
  shows "in_bounds shp v \<Longrightarrow> t1 v = t2 v"
proof (induction "sum_list v" arbitrary: v rule: less_induct)
  case less
  have len: "length v = length shp" using less.prems by (rule in_bounds_length)
  show ?case
  proof (cases "\<exists>k<length v. 0 < v ! k")
    case False
    then have "\<And>y. y \<in> set v \<Longrightarrow> y = 0" by (auto simp: in_set_conv_nth)
    with len have "v = replicate (length shp) 0" by (rule replicate_eqI)
    then show ?thesis using z by simp
  next
    case True
    then obtain k where k: "k < length v" "0 < v ! k" by blast
    define w where "w = dec v k"
    have bw: "in_bounds shp w" unfolding w_def using less.prems by (rule in_bounds_dec)
    have sw: "sum_list w < sum_list v" unfolding w_def using k by (rule sum_list_dec)
    have e0: "t1 w = t2 w" using sw bw by (rule less.hyps)
    have e1: "t1 (dec w j) = t2 (dec w j)" if "j < length w" "0 < w ! j" for j
    proof -
      have "sum_list (dec w j) < sum_list w" using that by (rule sum_list_dec)
      then have "sum_list (dec w j) < sum_list v" using sw by simp
      moreover have "in_bounds shp (dec w j)" using bw by (rule in_bounds_dec)
      ultimately show ?thesis by (rule less.hyps)
    qed
    have "ladder A B t1 k w = ladder A B t2 k w" using e0 e1 by (rule ladder_cong)
    then have "recurrence_spec A B t1 v k = recurrence_spec A B t2 v k"
      by (simp only: recurrence_spec_ladder [OF k] w_def)
    moreover have "t1 v = recurrence_spec A B t1 v k" using less.prems k by (intro r1) simp_all
    moreover have "t2 v = recurrence_spec A B t2 v k" using less.prems k by (intro r2) simp_all
    ultimately show ?thesis by simp
  qed
qed

text \<open>
  Along two axes the recurrence asks for \<open>A[0,1] tensor[0,0]\<close> and for
  \<open>A[1,0] tensor[0,0]\<close> at the multi-index \<open>[1, 1]\<close>: a tensor with a non-zero entry at the
  all-zero multi-index can satisfy it along every axis only if these entries of \<open>A\<close> agree.
  The recurrence along every axis is therefore stated for a symmetric \<open>A\<close>.
\<close>

lemma recurrence_spec_two_axes:
  assumes "t [1, 0] = recurrence_spec A B t [1, 0] 0"
    and "t [0, 1] = recurrence_spec A B t [0, 1] 1"
    and "t [1, 1] = recurrence_spec A B t [1, 1] 0"
    and "t [1, 1] = recurrence_spec A B t [1, 1] 1"
  shows "A ! 0 ! 1 * t [0, 0] = A ! 1 ! 0 * t [0, 0]"
proof -
  have a: "t [1, 0] = B ! 0 * t [0, 0]"
    using assms(1)
    by (simp add: recurrence_spec_def unit_step_def idx_minus_def entry_def upt_rec)
  have b: "t [0, 1] = B ! 1 * t [0, 0]"
    using assms(2)
    by (simp add: recurrence_spec_def unit_step_def idx_minus_def entry_def upt_rec)
  have c: "t [1, 1] = B ! 0 * t [0, 1] + A ! 0 ! 1 * t [0, 0]"
    using assms(3)
    by (simp add: recurrence_spec_def unit_step_def idx_minus_def entry_def upt_rec)
  have d: "t [1, 1] = B ! 1 * t [1, 0] + A ! 1 ! 0 * t [0, 0]"
    using assms(4)
    by (simp add: recurrence_spec_def unit_step_def idx_minus_def entry_def upt_rec)
  have "B ! 0 * (B ! 1 * t [0, 0]) + A ! 0 ! 1 * t [0, 0]
      = B ! 1 * (B ! 0 * t [0, 0]) + A ! 1 ! 0 * t [0, 0]"
    using c d unfolding a b by simp
  then show ?thesis by (simp add: mult.left_commute)
qed



subsection \<open>The backward pass (the closure \<open>grad\<close> of \<open>_recursive_state\<close>)\<close>

text \<open>\<open>np.sum\<close> over all axes of a tensor of the given shape.\<close>


definition np_sum_all :: "nat list \<Rightarrow> (nat list \<Rightarrow> complex) \<Rightarrow> complex" where
  "np_sum_all shp f = (\<Sum>idx\<leftarrow>ndindex shp. f idx)"

text \<open>
  The closure \<open>grad\<close>, with the variables it captures as arguments.
  \<open>utils.fill_gradients\<close> is not among the sources: it is a parameter that returns the
  per-entry sensitivities \<open>dA[idx]\<close> (a matrix) and \<open>dB[idx]\<close> (a vector).
\<close>

definition grad ::
  "(tensor \<Rightarrow> complex mat \<Rightarrow> complex vec \<Rightarrow> int list
      \<Rightarrow> (nat list \<Rightarrow> complex mat) \<times> (nat list \<Rightarrow> complex vec))
    \<Rightarrow> tensor \<Rightarrow> complex mat \<Rightarrow> complex vec \<Rightarrow> complex \<Rightarrow> int list \<Rightarrow> tensor
    \<Rightarrow> complex mat \<times> complex vec \<times> complex" where
  "grad fill_gradients state A B C cutoffs_minus_1 dy =
     (let (dA, dB) = fill_gradients state A B cutoffs_minus_1;
          dC = state\<lparr>cells := (\<lambda>idx. cells state idx / C)\<rparr>;
          dLdA = mk_mat (length A) (ncols A)
                   (\<lambda>a b. np_sum_all (shape dy) (\<lambda>idx. cells dy idx * cnj (dA idx ! a ! b)));
          dLdB = map (\<lambda>a. np_sum_all (shape dy) (\<lambda>idx. cells dy idx * cnj (dB idx ! a)))
                   [0..<length B];
          dLdC = np_sum_all (shape dy) (\<lambda>idx. cells dy idx * cnj (cells dC idx))
      in (dLdA, dLdB, dLdC))"

text \<open>Forward pass followed by the backward pass on the upstream gradient \<open>dy\<close>.\<close>

definition recursive_state_backward ::
  "(tensor \<Rightarrow> complex mat \<Rightarrow> complex vec \<Rightarrow> int list
      \<Rightarrow> (nat list \<Rightarrow> complex mat) \<times> (nat list \<Rightarrow> complex vec))
    \<Rightarrow> complex mat \<Rightarrow> complex vec \<Rightarrow> complex \<Rightarrow> int list \<Rightarrow> tensor
    \<Rightarrow> py_error + complex mat \<times> complex vec \<times> complex" where
  "recursive_state_backward fill_gradients A B C cutoffs dy =
     (let mixed = (length B = 2 * length cutoffs);
          cutoffs_minus_1 =
            map (\<lambda>c. c - 1) cutoffs @ (if mixed then map (\<lambda>c. c - 1) cutoffs else [])
      in case recursive_state A B C cutoffs of
           Inl e \<Rightarrow> Inl e
         | Inr state \<Rightarrow> Inr (grad fill_gradients state A B C cutoffs_minus_1 dy))"

lemma grad_dLdC:
  "snd (snd (grad fg state A B C cm1 dy))
     = (\<Sum>idx\<leftarrow>ndindex (shape dy). cells dy idx * cnj (cells state idx / C))"
  by (simp add: grad_def np_sum_all_def Let_def split: prod.splits)

lemma recurrence_rhs_scale:
  "recurrence_rhs A B (\<lambda>i. C * t i) idx k = C * recurrence_rhs A B t idx k"
proof -
  let ?ki = "dec idx k"
  have "(\<Sum>j\<leftarrow>[0..<length idx].
           if ?ki ! j = 0 then 0 else A ! k ! j * csqrt_nat (?ki ! j) * (C * t (dec ?ki j)))
      = (\<Sum>j\<leftarrow>[0..<length idx].
           C * (if ?ki ! j = 0 then 0 else A ! k ! j * csqrt_nat (?ki ! j) * t (dec ?ki j)))"
    by (intro arg_cong [where f = sum_list] map_cong refl) simp
  also have "\<dots> = C * (\<Sum>j\<leftarrow>[0..<length idx].
           if ?ki ! j = 0 then 0 else A ! k ! j * csqrt_nat (?ki ! j) * t (dec ?ki j))"
    by (rule sum_list_const_mult)
  finally show ?thesis
    by (simp add: recurrence_rhs_def Let_def algebra_simps)
qed

lemma fill_cell_scale:
  assumes "cells s = (\<lambda>i. C * cells s1 i)"
  shows "cells (fill_cell A B s idx) = (\<lambda>i. C * cells (fill_cell A B s1 idx) i)"
proof (cases "pivot idx")
  case None
  then show ?thesis using assms by (simp add: fill_cell_def)
next
  case (Some k)
  have r: "recurrence_rhs A B (cells s) idx k = C * recurrence_rhs A B (cells s1) idx k"
    by (simp only: assms recurrence_rhs_scale)
  have "(cells s)(idx := C * recurrence_rhs A B (cells s1) idx k)
      = (\<lambda>i. C * ((cells s1)(idx := recurrence_rhs A B (cells s1) idx k)) i)"
    by (simp add: assms fun_eq_iff)
  then show ?thesis by (simp add: fill_cell_def Some r)
qed

lemma foldl_fill_scale:
  assumes "cells s = (\<lambda>i. C * cells s1 i)"
  shows "cells (foldl (fill_cell A B) s xs) = (\<lambda>i. C * cells (foldl (fill_cell A B) s1 xs) i)"
  using assms
proof (induction xs arbitrary: s s1)
  case Nil
  then show ?case by simp
next
  case (Cons x xs)
  from Cons.prems have "cells (fill_cell A B s x) = (\<lambda>i. C * cells (fill_cell A B s1 x) i)"
    by (rule fill_cell_scale)
  then show ?case using Cons.IH by simp
qed

lemma recursive_state_linear:
  assumes "list_all (\<lambda>c. 0 < c) cutoffs"
  shows "\<exists>state state1. recursive_state A B C cutoffs = Inr state
     \<and> recursive_state A B 1 cutoffs = Inr state1
     \<and> shape state = map nat (cutoffs @ (if length B = 2 * length cutoffs then cutoffs else []))
     \<and> (\<forall>idx. cells state idx = C * cells state1 idx)"
proof -
  define dims where "dims = cutoffs @ (if length B = 2 * length cutoffs then cutoffs else [])"
  let ?s = "\<lambda>c. \<lparr>shape = map nat dims, cells = (\<lambda>idx. 0)(replicate (length dims) 0 := (c::complex))\<rparr>"
  have 1: "recursive_state A B C cutoffs = Inr (foldl (fill_cell A B) (?s C) (ndindex (map nat dims)))"
    using assms dims_def by (rule recursive_state_Inr)
  have 2: "recursive_state A B 1 cutoffs = Inr (foldl (fill_cell A B) (?s 1) (ndindex (map nat dims)))"
    using assms dims_def by (rule recursive_state_Inr)
  have "cells (?s C) = (\<lambda>i. C * cells (?s 1) i)" by (auto simp: fun_eq_iff)
  then have "cells (foldl (fill_cell A B) (?s C) (ndindex (map nat dims)))
     = (\<lambda>i. C * cells (foldl (fill_cell A B) (?s 1) (ndindex (map nat dims))) i)"
    by (rule foldl_fill_scale)
  then have 3: "\<forall>idx. cells (foldl (fill_cell A B) (?s C) (ndindex (map nat dims))) idx
     = C * cells (foldl (fill_cell A B) (?s 1) (ndindex (map nat dims))) idx"
    by (simp add: fun_eq_iff)
  have 4: "shape (foldl (fill_cell A B) (?s C) (ndindex (map nat dims))) = map nat dims" by simp
  from 1 2 3 4 show ?thesis unfolding dims_def by blast
qed

text \<open>
  Claim C5. For positive cutoffs and an upstream gradient \<open>dy\<close> of the shape of the output
  tensor, the backward pass returns as \<open>dL/dC\<close> the sum over all multi-indices \<open>idx\<close> of
  the tensor of \<open>dy[idx] * conj(tensor[idx] / C)\<close>. The tensor is \<open>C\<close> times the tensor
  computed for \<open>C = 1\<close>: each entry is linear in \<open>C\<close>, so its sensitivity to \<open>C\<close> is
  \<open>tensor[idx] / C\<close>.
\<close>

theorem grad_dLdC_is_tensor_over_C:
  assumes "list_all (\<lambda>c. 0 < c) cutoffs"
    and "shape dy = map nat (cutoffs @ (if length B = 2 * length cutoffs then cutoffs else []))"
  shows "\<exists>state state1 g. recursive_state A B C cutoffs = Inr state
     \<and> recursive_state A B 1 cutoffs = Inr state1
     \<and> recursive_state_backward fill_gradients A B C cutoffs dy = Inr g
     \<and> snd (snd g) = (\<Sum>idx\<leftarrow>ndindex (shape state). cells dy idx * cnj (cells state idx / C))
     \<and> (\<forall>idx. cells state idx = C * cells state1 idx)"
proof -
  from recursive_state_linear [OF assms(1), of A B C] obtain state state1 where s:
    "recursive_state A B C cutoffs = Inr state"
    "recursive_state A B 1 cutoffs = Inr state1"
    "shape state = map nat (cutoffs @ (if length B = 2 * length cutoffs then cutoffs else []))"
    "\<forall>idx. cells state idx = C * cells state1 idx"
    by (elim exE conjE) (rule that, assumption+)
  let ?cm1 = "map (\<lambda>c. c - 1) cutoffs
     @ (if length B = 2 * length cutoffs then map (\<lambda>c. c - 1) cutoffs else [])"
  let ?g = "grad fill_gradients state A B C ?cm1 dy"
  have b: "recursive_state_backward fill_gradients A B C cutoffs dy = Inr ?g"
    by (simp add: recursive_state_backward_def Let_def s(1))
  have "shape dy = shape state" using assms(2) s(3) by simp
  then have "snd (snd ?g)
     = (\<Sum>idx\<leftarrow>ndindex (shape state). cells dy idx * cnj (cells state idx / C))"
    by (simp only: grad_dLdC)
  with s(1,2,4) b show ?thesis by blast
qed


theorem grad_dLdC_is_tensor_over_C_witness:
  "list_all (\<lambda>c. 0 < c) [2 :: int]
   \<and> shape \<lparr>shape = [2], cells = (\<lambda>idx. 1)\<rparr>
       = map nat ([2] @ (if length [3 / 10 :: complex] = 2 * length [2 :: int] then [2] else []))
   \<and> (\<exists>g. recursive_state_backward (\<lambda>state A B cm1. (\<lambda>idx. [[0]], \<lambda>idx. [0]))
          [[1 / 2]] [3 / 10] 2 [2] \<lparr>shape = [2], cells = (\<lambda>idx. 1)\<rparr> = Inr g
        \<and> snd (snd g) = 13 / 10)"
proof -
  let ?dy = "\<lparr>shape = [2], cells = (\<lambda>idx. 1)\<rparr>"
  let ?fg = "\<lambda>(state::tensor) (A::complex mat) (B::complex vec) (cm1::int list).
     (\<lambda>idx::nat list. [[0::complex]], \<lambda>idx::nat list. [0::complex])"
  have h1: "list_all (\<lambda>c. 0 < c) [2 :: int]" by simp
  have h2: "shape ?dy
       = map nat ([2] @ (if length [3 / 10 :: complex] = 2 * length [2 :: int] then [2] else []))"
    by simp
  from grad_dLdC_is_tensor_over_C [OF h1 h2, of "[[1 / 2]]" 2 ?fg]
  obtain state g where s: "recursive_state [[1 / 2]] [3 / 10] 2 [2] = Inr state"
    and g: "recursive_state_backward ?fg [[1 / 2]] [3 / 10] 2 [2] ?dy = Inr g"
    and v: "snd (snd g)
       = (\<Sum>idx\<leftarrow>ndindex (shape state). cells ?dy idx * cnj (cells state idx / 2))"
    by (elim exE conjE) (rule that, assumption+)
  have "(case recursive_state [[1 / 2]] [3 / 10] 2 [2] of Inl e \<Rightarrow> False
         | Inr t \<Rightarrow> shape t = [2] \<and> cells t [0] = 2 \<and> cells t [1] = 3 / 5)"
    by (simp add: recursive_state_def np_zeros_def setitem_def in_bounds_def fill_amplitudes_def
        fill_cell_def recurrence_rhs_def dec_def csqrt_nat_def upt_rec Let_def)
  then have e: "shape state = [2]" "cells state [0] = 2" "cells state [1] = 3 / 5"
    by (simp_all add: s)
  from e(3) have e': "cells state [Suc 0] = 3 / 5" by simp
  have "snd (snd g) = 13 / 10"
    unfolding v e(1) by (simp add: upt_rec e e')
  with h1 h2 g show ?thesis by blast
qed

section \<open>Algebra of square matrices\<close>

text \<open>A square matrix of size \<open>N\<close>: \<open>N\<close> rows of length \<open>N\<close>.\<close>

definition sq :: "nat \<Rightarrow> 'a mat \<Rightarrow> bool" where
  "sq N M = wf_mat N N M"

lemma sq_mk_mat [simp]: "sq N (mk_mat N N f)"
  by (simp add: sq_def)

lemma sq_eq_mk: "sq N M \<Longrightarrow> M = mk_mat N N (\<lambda>i j. M ! i ! j)"
  unfolding sq_def by (rule wf_mat_eq_mk)

lemma sq_eqI:
  assumes "sq N A" "sq N B" "\<And>i j. i < N \<Longrightarrow> j < N \<Longrightarrow> A ! i ! j = B ! i ! j"
  shows "A = B"
  using assms unfolding sq_def by (rule mat_eqI)

lemma matmul_sq:
  assumes "sq N A" "sq N B"
  shows "matmul A B = mk_mat N N (\<lambda>i j. \<Sum>k = 0..<N. A ! i ! k * B ! k ! j)"
proof (cases "N = 0")
  case True
  then show ?thesis using assms by (simp add: matmul_def sq_def wf_mat_def mk_mat_def)
next
  case False
  then have "ncols B = N" using assms(2) by (simp add: sq_def ncols_wf)
  moreover have "length A = N" "length B = N" using assms by (simp_all add: sq_def wf_mat_def)
  ultimately show ?thesis by (simp add: matmul_def)
qed

lemma transpose_sq:
  assumes "sq N A"
  shows "transpose_mat A = mk_mat N N (\<lambda>i j. A ! j ! i)"
proof (cases "N = 0")
  case True
  then show ?thesis using assms by (simp add: transpose_mat_def sq_def wf_mat_def mk_mat_def ncols_def)
next
  case False
  then have "ncols A = N" using assms by (simp add: sq_def ncols_wf)
  moreover have "length A = N" using assms by (simp add: sq_def wf_mat_def)
  ultimately show ?thesis by (simp add: transpose_mat_def)
qed

lemma map2_sq:
  assumes "sq N A" "sq N B"
  shows "map2 (map2 f) A B = mk_mat N N (\<lambda>i j. f (A ! i ! j) (B ! i ! j))"
proof (rule mat_eqI [of N N])
  have len: "length A = N" "length B = N" using assms by (simp_all add: sq_def wf_mat_def)
  have row: "length (A ! i) = N" "length (B ! i) = N" if "i < N" for i
    using assms that by (simp_all add: sq_def wf_mat_rowD)
  show "wf_mat N N (map2 (map2 f) A B)"
    using len row by (auto simp: wf_mat_def list_all_length)
  show "wf_mat N N (mk_mat N N (\<lambda>i j. f (A ! i ! j) (B ! i ! j)))" by simp
  fix i j assume "i < N" "j < N"
  then show "map2 (map2 f) A B ! i ! j = mk_mat N N (\<lambda>i j. f (A ! i ! j) (B ! i ! j)) ! i ! j"
    using len row by simp
qed

lemma madd_sq:
  "sq N A \<Longrightarrow> sq N B \<Longrightarrow> madd A B = mk_mat N N (\<lambda>i j. A ! i ! j + B ! i ! j)"
  unfolding madd_def by (rule map2_sq)

lemma msub_sq:
  "sq N A \<Longrightarrow> sq N B \<Longrightarrow> msub A B = mk_mat N N (\<lambda>i j. A ! i ! j - B ! i ! j)"
  unfolding msub_def by (rule map2_sq)

lemma smult_sq:
  assumes "sq N A"
  shows "smult a A = mk_mat N N (\<lambda>i j. a * A ! i ! j)"
proof (rule mat_eqI [of N N])
  have len: "length A = N" using assms by (simp add: sq_def wf_mat_def)
  have row: "length (A ! i) = N" if "i < N" for i
    using assms that by (simp add: sq_def wf_mat_rowD)
  show "wf_mat N N (smult a A)"
    using len row by (auto simp: wf_mat_def list_all_length smult_def)
  show "wf_mat N N (mk_mat N N (\<lambda>i j. a * A ! i ! j))" by simp
  fix i j assume "i < N" "j < N"
  then show "smult a A ! i ! j = mk_mat N N (\<lambda>i j. a * A ! i ! j) ! i ! j"
    using len row by (simp add: smult_def)
qed

lemma sq_matmul [simp]: "sq N A \<Longrightarrow> sq N B \<Longrightarrow> sq N (matmul A B)"
  by (simp add: matmul_sq)

lemma sq_transpose [simp]: "sq N A \<Longrightarrow> sq N (transpose_mat A)"
  by (simp add: transpose_sq)

lemma sq_madd [simp]: "sq N A \<Longrightarrow> sq N B \<Longrightarrow> sq N (madd A B)"
  by (simp add: madd_sq)

lemma sq_msub [simp]: "sq N A \<Longrightarrow> sq N B \<Longrightarrow> sq N (msub A B)"
  by (simp add: msub_sq)

lemma sq_smult [simp]: "sq N A \<Longrightarrow> sq N (smult a A)"
  by (simp add: smult_sq)

lemma sq_eye [simp]: "sq N (eye N)"
  by (simp add: sq_def)

lemma matmul_nth:
  "sq N A \<Longrightarrow> sq N B \<Longrightarrow> i < N \<Longrightarrow> j < N
    \<Longrightarrow> matmul A B ! i ! j = (\<Sum>k = 0..<N. A ! i ! k * B ! k ! j)"
  by (simp add: matmul_sq)

lemma transpose_nth:
  "sq N A \<Longrightarrow> i < N \<Longrightarrow> j < N \<Longrightarrow> transpose_mat A ! i ! j = A ! j ! i"
  by (simp add: transpose_sq)



lemma smult_nth:
  "sq N A \<Longrightarrow> i < N \<Longrightarrow> j < N \<Longrightarrow> smult a A ! i ! j = a * A ! i ! j"
  by (simp add: smult_sq)

lemma matmul_assoc:
  assumes "sq N A" "sq N B" "sq N C"
  shows "matmul (matmul A B) C = matmul A (matmul B C)"
proof (rule sq_eqI [of N])
  show "sq N (matmul (matmul A B) C)" "sq N (matmul A (matmul B C))"
    using assms by simp_all
  fix i j assume ij: "i < N" "j < N"
  have "matmul (matmul A B) C ! i ! j
      = (\<Sum>k = 0..<N. (\<Sum>l = 0..<N. A ! i ! l * B ! l ! k) * C ! k ! j)"
    using assms ij by (simp add: matmul_nth [of N])
  also have "\<dots> = (\<Sum>k = 0..<N. \<Sum>l = 0..<N. A ! i ! l * B ! l ! k * C ! k ! j)"
    by (simp add: sum_distrib_right)
  also have "\<dots> = (\<Sum>l = 0..<N. \<Sum>k = 0..<N. A ! i ! l * B ! l ! k * C ! k ! j)"
    by (rule sum.swap)
  also have "\<dots> = (\<Sum>l = 0..<N. A ! i ! l * (\<Sum>k = 0..<N. B ! l ! k * C ! k ! j))"
    by (simp add: sum_distrib_left mult.assoc)
  also have "\<dots> = matmul A (matmul B C) ! i ! j"
    using assms ij by (simp add: matmul_nth [of N])
  finally show "matmul (matmul A B) C ! i ! j = matmul A (matmul B C) ! i ! j" .
qed

lemma transpose_matmul:
  assumes "sq N A" "sq N B"
  shows "transpose_mat (matmul A B) = matmul (transpose_mat B) (transpose_mat A)"
proof (rule sq_eqI [of N])
  show "sq N (transpose_mat (matmul A B))" "sq N (matmul (transpose_mat B) (transpose_mat A))"
    using assms by simp_all
  fix i j assume ij: "i < N" "j < N"
  show "transpose_mat (matmul A B) ! i ! j = matmul (transpose_mat B) (transpose_mat A) ! i ! j"
    using assms ij by (simp add: matmul_nth [of N] transpose_nth [of N] mult.commute)
qed

lemma transpose_transpose:
  assumes "sq N A"
  shows "transpose_mat (transpose_mat A) = A"
  using assms by (intro sq_eqI [of N]) (simp_all add: transpose_nth [of N])



section \<open>Manifold-constrained parameters\<close>

text \<open>
  Modelled from the spec: \<open>utils.J\<close> is not among the sources. \<open>J\<close> is the
  \<open>2n \<times> 2n\<close> canonical symplectic form with blocks \<open>[[0, I], [-I, 0]]\<close>.
\<close>

definition utils_J :: "nat \<Rightarrow> real mat" where
  "utils_J n = mk_mat (2 * n) (2 * n) (\<lambda>i j. if j = i + n then 1 else if i = j + n then - 1 else 0)"

text \<open>
  Membership in \<open>Sp(2n, \<real>)\<close> and in \<open>O(N)\<close>, and the matrices whose exponentials lie in
  these groups: Hamiltonian matrices (\<open>X\<^sup>T J + J X = 0\<close>) and skew-symmetric matrices.
\<close>

definition symplectic :: "nat \<Rightarrow> real mat \<Rightarrow> bool" where
  "symplectic n S =
     (sq (2 * n) S \<and> matmul (matmul (transpose_mat S) (utils_J n)) S = utils_J n)"




text \<open>
  Multiplication by \<open>J\<close> swaps the two halves of the rows or columns, with a sign.
\<close>

definition swap_half :: "nat \<Rightarrow> nat \<Rightarrow> nat" where
  "swap_half n i = (if i < n then i + n else i - n)"

definition sign_half :: "nat \<Rightarrow> nat \<Rightarrow> real" where
  "sign_half n i = (if i < n then 1 else - 1)"

lemma sq_J [simp]: "sq (2 * n) (utils_J n)"
  by (simp add: utils_J_def)

lemma swap_half_less [simp]: "i < 2 * n \<Longrightarrow> swap_half n i < 2 * n"
  by (auto simp: swap_half_def)

lemma swap_half_swap [simp]: "i < 2 * n \<Longrightarrow> swap_half n (swap_half n i) = i"
  by (auto simp: swap_half_def)

lemma sign_half_swap [simp]: "i < 2 * n \<Longrightarrow> sign_half n (swap_half n i) = - sign_half n i"
  by (auto simp: swap_half_def sign_half_def)

lemma sign_half_sq [simp]: "sign_half n i * sign_half n i = 1"
  by (simp add: sign_half_def)


lemma matmul_J_nth:
  assumes "sq (2 * n) X" "i < 2 * n" "j < 2 * n"
  shows "matmul X (utils_J n) ! i ! j = - sign_half n j * X ! i ! (swap_half n j)"
proof -
  have "matmul X (utils_J n) ! i ! j = (\<Sum>k = 0..<2 * n. X ! i ! k * utils_J n ! k ! j)"
    using assms by (simp add: matmul_nth [of "2 * n"])
  also have "\<dots> = (\<Sum>k = 0..<2 * n.
       if k = swap_half n j then - sign_half n j * X ! i ! k else 0)"
    using assms(3) by (intro sum.cong refl) (auto simp: utils_J_def swap_half_def sign_half_def)
  also have "\<dots> = - sign_half n j * X ! i ! (swap_half n j)"
    using assms(3) by (simp add: sum.delta)
  finally show ?thesis .
qed


subsection \<open>The symplectic update\<close>






lemma ncols_sq:
  assumes "sq N M"
  shows "ncols M = N"
proof (cases "N = 0")
  case True
  then have "M = []" using assms by (simp add: sq_def wf_mat_def)
  then show ?thesis using True by (simp add: ncols_def)
next
  case False
  then show ?thesis using assms by (simp add: sq_def ncols_wf)
qed

lemma symplectic_matmul:
  assumes "symplectic n S" "symplectic n M"
  shows "symplectic n (matmul S M)"
proof -
  let ?J = "utils_J n"
  have sq: "sq (2 * n) S" "sq (2 * n) M" using assms by (simp_all add: symplectic_def)
  have S: "matmul (matmul (transpose_mat S) ?J) S = ?J"
    and M: "matmul (matmul (transpose_mat M) ?J) M = ?J"
    using assms by (simp_all add: symplectic_def)
  have "matmul (matmul (transpose_mat (matmul S M)) ?J) (matmul S M)
      = matmul (matmul (matmul (transpose_mat M) (transpose_mat S)) ?J) (matmul S M)"
    using sq by (simp add: transpose_matmul [of "2 * n"])
  also have "\<dots> = matmul (matmul (transpose_mat M) (matmul (transpose_mat S) ?J)) (matmul S M)"
    using sq by (simp add: matmul_assoc [of "2 * n"])
  also have "\<dots> = matmul (transpose_mat M) (matmul (matmul (transpose_mat S) ?J) (matmul S M))"
    using sq by (simp add: matmul_assoc [of "2 * n"])
  also have "matmul (matmul (transpose_mat S) ?J) (matmul S M)
      = matmul (matmul (matmul (transpose_mat S) ?J) S) M"
    using sq by (simp add: matmul_assoc [of "2 * n"])
  also have "\<dots> = matmul ?J M" by (simp only: S)
  also have "matmul (transpose_mat M) (matmul ?J M) = matmul (matmul (transpose_mat M) ?J) M"
    using sq by (simp add: matmul_assoc [of "2 * n"])
  also have "\<dots> = ?J" by (rule M)
  finally show ?thesis using sq by (simp add: symplectic_def)
qed




















subsection \<open>The orthogonal update (TrainPlugin.update_orthogonal)\<close>






lemma matmul_smult_left:
  assumes "sq N A" "sq N C"
  shows "matmul (smult a A) C = smult a (matmul A C)"
  using assms
  by (intro sq_eqI [of N])
    (simp_all add: matmul_nth [of N] smult_nth [of N] sum_distrib_left mult.assoc)













subsection \<open>Initialisation of a symplectic parameter (TFMathbackend)\<close>

text \<open>
  \<open>tf.concat\<close> along axis 1 and the method \<open>block\<close>, which joins the blocks of each row
  along axis 1 and the rows along axis 0.
\<close>

fun concat_axis1 :: "'a mat list \<Rightarrow> 'a mat" where
  "concat_axis1 [] = []"
| "concat_axis1 [m] = m"
| "concat_axis1 (m # ms) = map2 (@) m (concat_axis1 ms)"

definition block :: "'a mat list list \<Rightarrow> 'a mat" where
  "block blocks = (let rows = map concat_axis1 blocks in concat rows)"

definition unitary_to_orthogonal :: "complex mat \<Rightarrow> real mat" where
  "unitary_to_orthogonal U =
     (let X = map (map Re) U; Y = map (map Im) U
      in block [[X, map (map uminus) Y], [Y, X]])"

text \<open>\<open>tf.einsum('ij,j,jk->ik', a, d, b)\<close>.\<close>

definition einsum_ij_j_jk :: "real mat \<Rightarrow> real vec \<Rightarrow> real mat \<Rightarrow> real mat" where
  "einsum_ij_j_jk a d b =
     mk_mat (length a) (ncols b) (\<lambda>i k. \<Sum>j = 0..<length d. a ! i ! j * d ! j * b ! j ! k)"

text \<open>
  The random draws of one call: the two uniform phases used for one mode, the two
  matrices returned by \<open>unitary_group.rvs\<close> used otherwise, and the squeezing vector.
\<close>

record draws =
  uniform_W :: real
  uniform_V :: real
  rvs_W :: "complex mat"
  rvs_V :: "complex mat"
  uniform_r :: "real vec"

text \<open>
  The value held by the returned variable or constant; \<open>trainable\<close> only selects which
  of the two is built.
\<close>

definition make_symplectic_parameter :: "real mat option \<Rightarrow> bool \<Rightarrow> nat \<Rightarrow> draws \<Rightarrow> real mat" where
  "make_symplectic_parameter init_value trainable num_modes rnd =
     (case init_value of
        None \<Rightarrow>
          (let W = (if num_modes = 1 then [[exp (\<i> * complex_of_real (uniform_W rnd))]]
                    else rvs_W rnd);
               V = (if num_modes = 1 then [[exp (\<i> * complex_of_real (uniform_V rnd))]]
                    else rvs_V rnd);
               r = uniform_r rnd;
               OW = unitary_to_orthogonal W;
               OV = unitary_to_orthogonal V;
               dd = map (\<lambda>x. exp (- x)) r @ map exp r
           in einsum_ij_j_jk OW dd OV)
      | Some val \<Rightarrow> val)"

text \<open>Unitary matrices: \<open>U\<^sup>\<dagger> U = I\<close>.\<close>

definition adjoint :: "complex mat \<Rightarrow> complex mat" where
  "adjoint U = map (map cnj) (transpose_mat U)"

definition unitary :: "nat \<Rightarrow> complex mat \<Rightarrow> bool" where
  "unitary n U = (sq n U \<and> matmul (adjoint U) U = eye n)"

lemma block_2x2:
  assumes "sq n A" "sq n B" "sq n C" "sq n D"
  shows "block [[A, B], [C, D]] = mk_mat (2 * n) (2 * n)
     (\<lambda>i j. if i < n then (if j < n then A ! i ! j else B ! i ! (j - n))
            else (if j < n then C ! (i - n) ! j else D ! (i - n) ! (j - n)))"
proof (rule mat_eqI [of "2 * n" "2 * n"])
  have len: "length A = n" "length B = n" "length C = n" "length D = n"
    using assms by (simp_all add: sq_def wf_mat_def)
  have row: "length (A ! i) = n" "length (B ! i) = n" "length (C ! i) = n" "length (D ! i) = n"
    if "i < n" for i
    using assms that by (simp_all add: sq_def wf_mat_rowD)
  have b: "block [[A, B], [C, D]] = map2 (@) A B @ map2 (@) C D"
    by (simp add: block_def)
  show "wf_mat (2 * n) (2 * n) (block [[A, B], [C, D]])"
    unfolding b using len row
    by (auto simp: wf_mat_def list_all_length nth_append)
  show "wf_mat (2 * n) (2 * n) (mk_mat (2 * n) (2 * n)
     (\<lambda>i j. if i < n then (if j < n then A ! i ! j else B ! i ! (j - n))
            else (if j < n then C ! (i - n) ! j else D ! (i - n) ! (j - n))))"
    by simp
  fix i j assume ij: "i < 2 * n" "j < 2 * n"
  show "block [[A, B], [C, D]] ! i ! j = mk_mat (2 * n) (2 * n)
     (\<lambda>i j. if i < n then (if j < n then A ! i ! j else B ! i ! (j - n))
            else (if j < n then C ! (i - n) ! j else D ! (i - n) ! (j - n))) ! i ! j"
  proof (cases "i < n")
    case True
    then show ?thesis unfolding b using ij len row [OF True]
      by (simp add: nth_append)
  next
    case False
    then have "i - n < n" using ij by simp
    then show ?thesis unfolding b using ij len row [of "i - n"] False
      by (simp add: nth_append)
  qed
qed

lemma unitary_to_orthogonal_mk:
  assumes "sq n U"
  shows "unitary_to_orthogonal U = mk_mat (2 * n) (2 * n)
     (\<lambda>i j. if i < n then (if j < n then Re (U ! i ! j) else - Im (U ! i ! (j - n)))
            else (if j < n then Im (U ! (i - n) ! j) else Re (U ! (i - n) ! (j - n))))"
proof -
  have len: "length U = n" using assms by (simp add: sq_def wf_mat_def)
  have row: "length (U ! i) = n" if "i < n" for i
    using assms that by (simp add: sq_def wf_mat_rowD)
  have X: "sq n (map (map Re) U)" and Y: "sq n (map (map Im) U)"
    and Y': "sq n (map (map uminus) (map (map Im) U))"
    using len row by (auto simp: sq_def wf_mat_def list_all_length)
  show ?thesis
    unfolding unitary_to_orthogonal_def Let_def block_2x2 [OF X Y' Y X]
    by (rule mk_mat_cong) (auto simp: len row)
qed

lemma sum_split_half:
  fixes g :: "nat \<Rightarrow> 'a::comm_monoid_add"
  shows "(\<Sum>k = 0..<2 * n. g k) = (\<Sum>k = 0..<n. g k) + (\<Sum>k = 0..<n. g (k + n))"
proof -
  have "(\<Sum>k = 0..<2 * n. g k) = (\<Sum>k = 0..<n. g k) + (\<Sum>k = n..<2 * n. g k)"
    by (rule sum.atLeastLessThan_concat [symmetric]) simp_all
  also have "(\<Sum>k = n..<2 * n. g k) = (\<Sum>k = 0 + n..<n + n. g k)" by (simp add: mult_2)
  also have "\<dots> = (\<Sum>k = 0..<n. g (k + n))" by (rule sum.shift_bounds_nat_ivl)
  finally show ?thesis .
qed

lemma symplectic_form_nth:
  assumes "sq (2 * n) M" "i < 2 * n" "j < 2 * n"
  shows "matmul (matmul (transpose_mat M) (utils_J n)) M ! i ! j
     = (\<Sum>k = 0..<n. M ! k ! i * M ! (k + n) ! j - M ! (k + n) ! i * M ! k ! j)"
proof -
  have "matmul (matmul (transpose_mat M) (utils_J n)) M ! i ! j
      = (\<Sum>k = 0..<2 * n. matmul (transpose_mat M) (utils_J n) ! i ! k * M ! k ! j)"
    using assms by (simp add: matmul_nth [of "2 * n"])
  also have "\<dots> = (\<Sum>k = 0..<2 * n. - sign_half n k * M ! (swap_half n k) ! i * M ! k ! j)"
    using assms by (intro sum.cong refl) (simp add: matmul_J_nth transpose_nth [of "2 * n"])
  also have "\<dots> = (\<Sum>k = 0..<n. - sign_half n k * M ! (swap_half n k) ! i * M ! k ! j)
      + (\<Sum>k = 0..<n. - sign_half n (k + n) * M ! (swap_half n (k + n)) ! i * M ! (k + n) ! j)"
    by (rule sum_split_half)
  also have "(\<Sum>k = 0..<n. - sign_half n k * M ! (swap_half n k) ! i * M ! k ! j)
      = (\<Sum>k = 0..<n. - (M ! (k + n) ! i * M ! k ! j))"
    by (intro sum.cong refl) (simp add: sign_half_def swap_half_def)
  also have "(\<Sum>k = 0..<n. - sign_half n (k + n) * M ! (swap_half n (k + n)) ! i * M ! (k + n) ! j)
      = (\<Sum>k = 0..<n. M ! k ! i * M ! (k + n) ! j)"
    by (intro sum.cong refl) (simp add: sign_half_def swap_half_def)
  also have "(\<Sum>k = 0..<n. - (M ! (k + n) ! i * M ! k ! j)) + (\<Sum>k = 0..<n. M ! k ! i * M ! (k + n) ! j)
      = (\<Sum>k = 0..<n. M ! k ! i * M ! (k + n) ! j - M ! (k + n) ! i * M ! k ! j)"
    by (simp add: sum.distrib [symmetric])
  finally show ?thesis .
qed

lemma utils_J_nth:
  "i < 2 * n \<Longrightarrow> j < 2 * n
    \<Longrightarrow> utils_J n ! i ! j = (if j = i + n then 1 else if i = j + n then - 1 else 0)"
  by (simp add: utils_J_def)

lemma symplecticI:
  assumes "sq (2 * n) M"
    and "\<And>i j. i < 2 * n \<Longrightarrow> j < 2 * n \<Longrightarrow>
      (\<Sum>k = 0..<n. M ! k ! i * M ! (k + n) ! j - M ! (k + n) ! i * M ! k ! j)
        = (if j = i + n then 1 else if i = j + n then - 1 else 0)"
  shows "symplectic n M"
proof -
  have "matmul (matmul (transpose_mat M) (utils_J n)) M = utils_J n"
  proof (rule sq_eqI [of "2 * n"])
    show "sq (2 * n) (matmul (matmul (transpose_mat M) (utils_J n)) M)"
      using assms(1) by simp
    show "sq (2 * n) (utils_J n)" by simp
    fix i j assume "i < 2 * n" "j < 2 * n"
    then show "matmul (matmul (transpose_mat M) (utils_J n)) M ! i ! j = utils_J n ! i ! j"
      using assms by (simp only: symplectic_form_nth utils_J_nth)
  qed
  then show ?thesis using assms(1) by (simp add: symplectic_def)
qed

lemma adjoint_nth:
  assumes "sq n U" "i < n" "j < n"
  shows "adjoint U ! i ! j = cnj (U ! j ! i)"
  using assms by (simp add: adjoint_def transpose_sq [of n] mk_mat_def)

lemma sq_adjoint [simp]: "sq n U \<Longrightarrow> sq n (adjoint U)"
  by (simp add: adjoint_def transpose_sq [of n] mk_mat_def sq_def wf_mat_def list_all_length)

lemma unitary_sum:
  assumes "unitary n U" "i < n" "j < n"
  shows "(\<Sum>k = 0..<n. cnj (U ! k ! i) * U ! k ! j) = (if i = j then 1 else 0)"
proof -
  have sq: "sq n U" and e: "matmul (adjoint U) U = eye n"
    using assms(1) by (simp_all add: unitary_def)
  have "matmul (adjoint U) U ! i ! j = (\<Sum>k = 0..<n. adjoint U ! i ! k * U ! k ! j)"
    using sq assms(2,3) by (simp add: matmul_nth [of n])
  also have "\<dots> = (\<Sum>k = 0..<n. cnj (U ! k ! i) * U ! k ! j)"
    using sq assms(2) by (intro sum.cong refl) (simp add: adjoint_nth [of n])
  finally show ?thesis using assms(2,3) by (simp add: e)
qed

lemma unitary_re:
  assumes "unitary n U" "i < n" "j < n"
  shows "(\<Sum>k = 0..<n. Re (U ! k ! i) * Re (U ! k ! j) + Im (U ! k ! i) * Im (U ! k ! j))
     = (if i = j then 1 else 0)"
proof -
  have "Re (\<Sum>k = 0..<n. cnj (U ! k ! i) * U ! k ! j) = Re (if i = j then 1 else 0)"
    by (simp only: unitary_sum [OF assms])
  then show ?thesis by (simp add: Re_sum split: if_splits)
qed

lemma unitary_im:
  assumes "unitary n U" "i < n" "j < n"
  shows "(\<Sum>k = 0..<n. Re (U ! k ! i) * Im (U ! k ! j) - Im (U ! k ! i) * Re (U ! k ! j)) = 0"
proof -
  have "Im (\<Sum>k = 0..<n. cnj (U ! k ! i) * U ! k ! j) = Im (if i = j then 1 else 0)"
    by (simp only: unitary_sum [OF assms])
  then show ?thesis by (simp add: Im_sum split: if_splits)
qed

lemma unitary_to_orthogonal_symplectic:
  assumes "unitary n U"
  shows "symplectic n (unitary_to_orthogonal U)"
proof (rule symplecticI)
  have sq: "sq n U" using assms by (simp add: unitary_def)
  let ?f = "\<lambda>i j. if i < n then (if j < n then Re (U ! i ! j) else - Im (U ! i ! (j - n)))
            else (if j < n then Im (U ! (i - n) ! j) else Re (U ! (i - n) ! (j - n)))"
  let ?O = "unitary_to_orthogonal U"
  have O: "?O = mk_mat (2 * n) (2 * n) ?f" using sq by (rule unitary_to_orthogonal_mk)
  show "sq (2 * n) ?O" unfolding O by simp
  fix i j assume ij: "i < 2 * n" "j < 2 * n"
  have top: "?O ! k ! c = (if c < n then Re (U ! k ! c) else - Im (U ! k ! (c - n)))"
    if "k < n" "c < 2 * n" for k c
    unfolding O using that by simp
  have bot: "?O ! (k + n) ! c = (if c < n then Im (U ! k ! c) else Re (U ! k ! (c - n)))"
    if "k < n" "c < 2 * n" for k c
    unfolding O using that by simp
  have s: "(\<Sum>k = 0..<n. ?O ! k ! i * ?O ! (k + n) ! j - ?O ! (k + n) ! i * ?O ! k ! j)
     = (\<Sum>k = 0..<n.
          (if i < n then Re (U ! k ! i) else - Im (U ! k ! (i - n)))
            * (if j < n then Im (U ! k ! j) else Re (U ! k ! (j - n)))
          - (if i < n then Im (U ! k ! i) else Re (U ! k ! (i - n)))
            * (if j < n then Re (U ! k ! j) else - Im (U ! k ! (j - n))))"
    using ij by (intro sum.cong refl) (simp only: top bot atLeastLessThan_iff)
  show "(\<Sum>k = 0..<n. ?O ! k ! i * ?O ! (k + n) ! j - ?O ! (k + n) ! i * ?O ! k ! j)
        = (if j = i + n then 1 else if i = j + n then - 1 else 0)"
  proof (cases "i < n")
    case i: True
    show ?thesis
    proof (cases "j < n")
      case j: True
      have "(\<Sum>k = 0..<n. Re (U ! k ! i) * Im (U ! k ! j) - Im (U ! k ! i) * Re (U ! k ! j)) = 0"
        using assms i j by (rule unitary_im)
      then show ?thesis unfolding s using i j by simp
    next
      case j: False
      then have j': "j - n < n" using ij by simp
      have "(\<Sum>k = 0..<n. Re (U ! k ! i) * Re (U ! k ! (j - n))
              + Im (U ! k ! i) * Im (U ! k ! (j - n))) = (if i = j - n then 1 else 0)"
        using assms i j' by (rule unitary_re)
      moreover have "(i = j - n) = (j = i + n)" using j by auto
      ultimately show ?thesis unfolding s using i j by simp
    qed
  next
    case i: False
    then have i': "i - n < n" using ij by simp
    show ?thesis
    proof (cases "j < n")
      case j: True
      have u: "(\<Sum>k = 0..<n. Re (U ! k ! (i - n)) * Re (U ! k ! j)
              + Im (U ! k ! (i - n)) * Im (U ! k ! j)) = (if i - n = j then 1 else 0)"
        using assms i' j by (rule unitary_re)
      have "(\<Sum>k = 0..<n. - Im (U ! k ! (i - n)) * Im (U ! k ! j)
              - Re (U ! k ! (i - n)) * Re (U ! k ! j))
          = (\<Sum>k = 0..<n. - (Re (U ! k ! (i - n)) * Re (U ! k ! j)
              + Im (U ! k ! (i - n)) * Im (U ! k ! j)))"
        by (intro sum.cong refl) simp
      also have "\<dots> = - (\<Sum>k = 0..<n. Re (U ! k ! (i - n)) * Re (U ! k ! j)
              + Im (U ! k ! (i - n)) * Im (U ! k ! j))"
        by (rule sum_negf)
      finally have "(\<Sum>k = 0..<n. - Im (U ! k ! (i - n)) * Im (U ! k ! j)
              - Re (U ! k ! (i - n)) * Re (U ! k ! j)) = - (if i - n = j then 1 else 0)"
        by (simp only: u)
      moreover have "(i - n = j) = (i = j + n)" using i by auto
      ultimately show ?thesis unfolding s using i j by simp
    next
      case j: False
      then have j': "j - n < n" using ij by simp
      have "(\<Sum>k = 0..<n. Re (U ! k ! (i - n)) * Im (U ! k ! (j - n))
              - Im (U ! k ! (i - n)) * Re (U ! k ! (j - n))) = 0"
        using assms i' j' by (rule unitary_im)
      moreover have "(\<Sum>k = 0..<n. - Im (U ! k ! (i - n)) * Re (U ! k ! (j - n))
              - Re (U ! k ! (i - n)) * - Im (U ! k ! (j - n)))
          = (\<Sum>k = 0..<n. Re (U ! k ! (i - n)) * Im (U ! k ! (j - n))
              - Im (U ! k ! (i - n)) * Re (U ! k ! (j - n)))"
        by (intro sum.cong refl) simp
      ultimately have "(\<Sum>k = 0..<n. - Im (U ! k ! (i - n)) * Re (U ! k ! (j - n))
              - Re (U ! k ! (i - n)) * - Im (U ! k ! (j - n))) = 0"
        by (simp only:)
      then show ?thesis unfolding s using i j ij by simp
    qed
  qed
qed

lemma sq_linalg_diag [simp]: "length d = N \<Longrightarrow> sq N (linalg_diag d)"
  by (auto simp: linalg_diag_def)

lemma linalg_diag_nth:
  "length d = N \<Longrightarrow> i < N \<Longrightarrow> j < N \<Longrightarrow> linalg_diag d ! i ! j = (if i = j then d ! i else 0)"
  by (auto simp: linalg_diag_def)

lemma squeeze_diag_symplectic:
  assumes "length r = n"
  shows "symplectic n (linalg_diag (map (\<lambda>x. exp (- x)) r @ map exp r))"
proof -
  define dd where "dd = map (\<lambda>x. exp (- x)) r @ map exp (r :: real list)"
  have len: "length dd = 2 * n" using assms by (simp add: dd_def)
  have p1: "dd ! k * dd ! (k + n) = 1" if "k < n" for k
    using that assms by (simp add: dd_def nth_append exp_minus)
  have p2: "dd ! (k + n) * dd ! k = 1" if "k < n" for k
    using p1 [OF that] by (simp add: mult.commute)
  have D: "linalg_diag dd ! a ! b = (if a = b then dd ! a else 0)"
    if "a < 2 * n" "b < 2 * n" for a b
    using len that by (rule linalg_diag_nth)
  have "symplectic n (linalg_diag dd)"
  proof (rule symplecticI)
    show "sq (2 * n) (linalg_diag dd)" using len by simp
    fix i j assume ij: "i < 2 * n" "j < 2 * n"
    have "(\<Sum>k = 0..<n. linalg_diag dd ! k ! i * linalg_diag dd ! (k + n) ! j
              - linalg_diag dd ! (k + n) ! i * linalg_diag dd ! k ! j)
        = (\<Sum>k = 0..<n. (if k = i then (if j = i + n then 1 else 0) else 0)
                       - (if k = j then (if i = j + n then 1 else 0) else 0))"
    proof (intro sum.cong refl)
      fix k assume "k \<in> {0..<n}"
      then have k: "k < n" by simp
      then have k2: "k < 2 * n" "k + n < 2 * n" by simp_all
      have 1: "linalg_diag dd ! k ! i * linalg_diag dd ! (k + n) ! j
          = (if k = i then (if j = i + n then 1 else 0) else 0)"
        unfolding D [OF k2(1) ij(1)] D [OF k2(2) ij(2)] using p1 [OF k] by auto
      have 2: "linalg_diag dd ! (k + n) ! i * linalg_diag dd ! k ! j
          = (if k = j then (if i = j + n then 1 else 0) else 0)"
        unfolding D [OF k2(2) ij(1)] D [OF k2(1) ij(2)] using p2 [OF k] by auto
      show "linalg_diag dd ! k ! i * linalg_diag dd ! (k + n) ! j
              - linalg_diag dd ! (k + n) ! i * linalg_diag dd ! k ! j
          = (if k = i then (if j = i + n then 1 else 0) else 0)
                       - (if k = j then (if i = j + n then 1 else 0) else 0)"
        by (simp only: 1 2)
    qed
    also have "\<dots> = (\<Sum>k = 0..<n. if k = i then (if j = i + n then 1 else 0) else 0)
        - (\<Sum>k = 0..<n. if k = j then (if i = j + n then 1 else 0) else 0)"
      by (rule sum_subtractf)
    also have "\<dots> = (if j = i + n then 1 else if i = j + n then - 1 else 0)"
      using ij by (auto simp: sum.delta)
    finally show "(\<Sum>k = 0..<n. linalg_diag dd ! k ! i * linalg_diag dd ! (k + n) ! j
              - linalg_diag dd ! (k + n) ! i * linalg_diag dd ! k ! j)
          = (if j = i + n then 1 else if i = j + n then - 1 else 0)" .
  qed
  then show ?thesis unfolding dd_def .
qed

lemma einsum_matmul:
  assumes "sq N a" "sq N b" "length d = N"
  shows "einsum_ij_j_jk a d b = matmul (matmul a (linalg_diag d)) b"
proof (rule sq_eqI [of N])
  have la: "length a = N" using assms(1) by (simp add: sq_def wf_mat_def)
  have nb: "ncols b = N" using assms(2) by (rule ncols_sq)
  have e: "einsum_ij_j_jk a d b = mk_mat N N (\<lambda>i k. \<Sum>j = 0..<N. a ! i ! j * d ! j * b ! j ! k)"
    by (simp add: einsum_ij_j_jk_def la nb assms(3))
  show "sq N (einsum_ij_j_jk a d b)" unfolding e by simp
  show "sq N (matmul (matmul a (linalg_diag d)) b)" using assms by simp
  fix i k assume ik: "i < N" "k < N"
  have ad: "matmul a (linalg_diag d) ! i ! j = a ! i ! j * d ! j" if "j < N" for j
  proof -
    have "matmul a (linalg_diag d) ! i ! j = (\<Sum>l = 0..<N. a ! i ! l * linalg_diag d ! l ! j)"
      using assms ik that by (simp add: matmul_nth [of N])
    also have "\<dots> = (\<Sum>l = 0..<N. if l = j then a ! i ! l * d ! l else 0)"
      using assms(3) that by (intro sum.cong refl) (simp add: linalg_diag_nth [of d N])
    also have "\<dots> = a ! i ! j * d ! j" using that by (simp add: sum.delta)
    finally show ?thesis .
  qed
  have "matmul (matmul a (linalg_diag d)) b ! i ! k
      = (\<Sum>j = 0..<N. matmul a (linalg_diag d) ! i ! j * b ! j ! k)"
    using assms ik by (simp add: matmul_nth [of N])
  also have "\<dots> = (\<Sum>j = 0..<N. a ! i ! j * d ! j * b ! j ! k)"
    by (intro sum.cong refl) (simp add: ad)
  finally show "einsum_ij_j_jk a d b ! i ! k = matmul (matmul a (linalg_diag d)) b ! i ! k"
    unfolding e using ik by simp
qed

lemma unitary_phase: "unitary 1 [[exp (\<i> * complex_of_real u)]]"
proof -
  have sq: "sq 1 [[exp (\<i> * complex_of_real u)]]" by (simp add: sq_def wf_mat_def)
  have "cnj (exp (\<i> * complex_of_real u)) * exp (\<i> * complex_of_real u) = 1"
    by (simp add: cis_conv_exp [symmetric] cis_cnj cis_mult)
  then have "matmul (adjoint [[exp (\<i> * complex_of_real u)]]) [[exp (\<i> * complex_of_real u)]] = eye 1"
    by (simp add: adjoint_def transpose_mat_def matmul_def eye_def ncols_def mk_mat_def)
  then show ?thesis using sq by (simp add: unitary_def)
qed

lemma unitary_to_orthogonal_adjoint:
  assumes "sq n U"
  shows "unitary_to_orthogonal (adjoint U) = transpose_mat (unitary_to_orthogonal U)"
proof (rule sq_eqI [of "2 * n"])
  have a: "sq n (adjoint U)" using assms by simp
  have O: "unitary_to_orthogonal U = mk_mat (2 * n) (2 * n)
     (\<lambda>i j. if i < n then (if j < n then Re (U ! i ! j) else - Im (U ! i ! (j - n)))
            else (if j < n then Im (U ! (i - n) ! j) else Re (U ! (i - n) ! (j - n))))"
    using assms by (rule unitary_to_orthogonal_mk)
  have O': "unitary_to_orthogonal (adjoint U) = mk_mat (2 * n) (2 * n)
     (\<lambda>i j. if i < n then (if j < n then Re (adjoint U ! i ! j) else - Im (adjoint U ! i ! (j - n)))
            else (if j < n then Im (adjoint U ! (i - n) ! j)
                  else Re (adjoint U ! (i - n) ! (j - n))))"
    using a by (rule unitary_to_orthogonal_mk)
  have sqO: "sq (2 * n) (unitary_to_orthogonal U)" unfolding O by simp
  show "sq (2 * n) (unitary_to_orthogonal (adjoint U))" unfolding O' by simp
  show "sq (2 * n) (transpose_mat (unitary_to_orthogonal U))" using sqO by simp
  fix i j assume ij: "i < 2 * n" "j < 2 * n"
  have "transpose_mat (unitary_to_orthogonal U) ! i ! j = unitary_to_orthogonal U ! j ! i"
    using sqO ij by (rule transpose_nth)
  moreover have "unitary_to_orthogonal (adjoint U) ! i ! j = unitary_to_orthogonal U ! j ! i"
    unfolding O O' using ij assms
    by (simp add: adjoint_nth [of n])
  ultimately show "unitary_to_orthogonal (adjoint U) ! i ! j
      = transpose_mat (unitary_to_orthogonal U) ! i ! j"
    by simp
qed

lemma unitary_to_orthogonal_1x1:
  "unitary_to_orthogonal [[z]] = [[Re z, - Im z], [Im z, Re z]]"
  by (simp add: unitary_to_orthogonal_def block_def)

lemma sin_half_pos: "0 < sin (1 / 2 :: real)"
proof -
  have "(1 / 2 :: real) < pi" using pi_ge_two by simp
  then show ?thesis by (intro sin_gt_zero) simp_all
qed

text \<open>
  Claim C6, as amended. Let the squeezing vector \<open>r\<close> have one entry per mode and let the
  matrices drawn from \<open>unitary_group\<close> be unitary (for one mode the phases \<open>exp(i u)\<close>
  are). Then a freshly initialised symplectic parameter equals
  \<open>OW diag(exp(-r), exp(r)) OV\<close>, where \<open>OW\<close> and \<open>OV\<close> are the images of the two
  unitary matrices \<open>W\<close> and \<open>V\<close> under the block embedding: the last factor is \<open>OV\<close>
  itself, which is the transpose of the image of the adjoint of \<open>V\<close>. The value is a
  member of \<open>Sp(2n, \<real>)\<close>.
\<close>

theorem make_symplectic_parameter_value:
  assumes "length (uniform_r rnd) = num_modes"
    and "num_modes = 1 \<or> unitary num_modes (rvs_W rnd) \<and> unitary num_modes (rvs_V rnd)"
  shows "(let W = (if num_modes = 1 then [[exp (\<i> * complex_of_real (uniform_W rnd))]]
                   else rvs_W rnd);
              V = (if num_modes = 1 then [[exp (\<i> * complex_of_real (uniform_V rnd))]]
                   else rvs_V rnd);
              dd = map (\<lambda>x. exp (- x)) (uniform_r rnd) @ map exp (uniform_r rnd)
          in unitary num_modes W \<and> unitary num_modes V
           \<and> make_symplectic_parameter None trainable num_modes rnd
              = matmul (matmul (unitary_to_orthogonal W) (linalg_diag dd)) (unitary_to_orthogonal V)
           \<and> make_symplectic_parameter None trainable num_modes rnd
              = matmul (matmul (unitary_to_orthogonal W) (linalg_diag dd))
                  (transpose_mat (unitary_to_orthogonal (adjoint V))))
     \<and> symplectic num_modes (make_symplectic_parameter None trainable num_modes rnd)"
proof -
  define W where "W = (if num_modes = 1 then [[exp (\<i> * complex_of_real (uniform_W rnd))]]
                   else rvs_W rnd)"
  define V where "V = (if num_modes = 1 then [[exp (\<i> * complex_of_real (uniform_V rnd))]]
                   else rvs_V rnd)"
  define dd where "dd = map (\<lambda>x. exp (- x)) (uniform_r rnd) @ map exp (uniform_r rnd)"
  have uW: "unitary num_modes W"
  proof (cases "num_modes = 1")
    case True
    then show ?thesis unfolding W_def by (simp only: simp_thms if_True unitary_phase)
  next
    case False
    then show ?thesis unfolding W_def using assms(2) by simp
  qed
  have uV: "unitary num_modes V"
  proof (cases "num_modes = 1")
    case True
    then show ?thesis unfolding V_def by (simp only: simp_thms if_True unitary_phase)
  next
    case False
    then show ?thesis unfolding V_def using assms(2) by simp
  qed
  have sW: "symplectic num_modes (unitary_to_orthogonal W)"
    using uW by (rule unitary_to_orthogonal_symplectic)
  have sV: "symplectic num_modes (unitary_to_orthogonal V)"
    using uV by (rule unitary_to_orthogonal_symplectic)
  have sD: "symplectic num_modes (linalg_diag dd)"
    unfolding dd_def using assms(1) by (rule squeeze_diag_symplectic)
  have len: "length dd = 2 * num_modes" using assms(1) by (simp add: dd_def)
  have qW: "sq (2 * num_modes) (unitary_to_orthogonal W)"
    and qV: "sq (2 * num_modes) (unitary_to_orthogonal V)"
    using sW sV by (simp_all add: symplectic_def)
  have m: "make_symplectic_parameter None trainable num_modes rnd
      = einsum_ij_j_jk (unitary_to_orthogonal W) dd (unitary_to_orthogonal V)"
    by (simp add: make_symplectic_parameter_def Let_def W_def V_def dd_def)
  have v: "make_symplectic_parameter None trainable num_modes rnd
      = matmul (matmul (unitary_to_orthogonal W) (linalg_diag dd)) (unitary_to_orthogonal V)"
    unfolding m using qW qV len by (rule einsum_matmul)
  have "symplectic num_modes (make_symplectic_parameter None trainable num_modes rnd)"
    unfolding v by (intro symplectic_matmul sW sD sV)
  moreover have "sq num_modes V" using uV by (simp add: unitary_def)
  then have "transpose_mat (unitary_to_orthogonal (adjoint V)) = unitary_to_orthogonal V"
    using qV by (simp add: unitary_to_orthogonal_adjoint [of num_modes] transpose_transpose [of "2 * num_modes"])
  then have "make_symplectic_parameter None trainable num_modes rnd
      = matmul (matmul (unitary_to_orthogonal W) (linalg_diag dd))
          (transpose_mat (unitary_to_orthogonal (adjoint V)))"
    using v by simp
  ultimately show ?thesis
    using uW uV v unfolding Let_def W_def V_def dd_def by blast
qed


theorem make_symplectic_parameter_value_witness:
  "length (uniform_r \<lparr>uniform_W = 0, uniform_V = 1 / 2, rvs_W = [], rvs_V = [], uniform_r = [0]\<rparr>) = 1
   \<and> make_symplectic_parameter None True 1
        \<lparr>uniform_W = 0, uniform_V = 1 / 2, rvs_W = [], rvs_V = [], uniform_r = [0]\<rparr>
       = [[cos (1 / 2), - sin (1 / 2)], [sin (1 / 2), cos (1 / 2)]]
   \<and> symplectic 1 [[cos (1 / 2), - sin (1 / 2)], [sin (1 / 2), cos (1 / 2)]]"
proof -
  let ?rnd = "\<lparr>uniform_W = 0, uniform_V = 1 / 2, rvs_W = [], rvs_V = [], uniform_r = [0]\<rparr>"
  have h1: "length (uniform_r ?rnd) = 1" by simp
  have h2: "(1::nat) = 1 \<or> unitary 1 (rvs_W ?rnd) \<and> unitary 1 (rvs_V ?rnd)" by simp
  have v: "make_symplectic_parameter None True 1 ?rnd
       = [[cos (1 / 2), - sin (1 / 2)], [sin (1 / 2), cos (1 / 2)]]"
    by (simp add: make_symplectic_parameter_def unitary_to_orthogonal_1x1 einsum_ij_j_jk_def
        ncols_def mk_mat_def upt_rec Re_exp Im_exp)
  from make_symplectic_parameter_value [OF h1 h2, of True]
  have "symplectic 1 (make_symplectic_parameter None True 1 ?rnd)" by blast
  then have "symplectic 1 [[cos (1 / 2), - sin (1 / 2)], [sin (1 / 2), cos (1 / 2)]]"
    by (simp only: v)
  with h1 v show ?thesis by blast
qed

text \<open>
  The claim as stated, with the transpose of \<open>OV\<close>, fails for one mode with the phases
  \<open>0\<close> and \<open>1/2\<close> and no squeezing: the value is the rotation by \<open>1/2\<close>, the claimed
  product the rotation by \<open>-1/2\<close>.
\<close>

theorem make_symplectic_parameter_transpose_counterexample:
  "make_symplectic_parameter None True 1
     \<lparr>uniform_W = 0, uniform_V = 1 / 2, rvs_W = [], rvs_V = [], uniform_r = [0]\<rparr>
   \<noteq> matmul (matmul (unitary_to_orthogonal [[exp (\<i> * complex_of_real 0)]])
            (linalg_diag (map (\<lambda>x. exp (- x)) [0] @ map exp [0])))
       (transpose_mat (unitary_to_orthogonal [[exp (\<i> * complex_of_real (1 / 2))]]))"
proof -
  have v: "make_symplectic_parameter None True 1
     \<lparr>uniform_W = 0, uniform_V = 1 / 2, rvs_W = [], rvs_V = [], uniform_r = [0]\<rparr>
       = [[cos (1 / 2), - sin (1 / 2)], [sin (1 / 2), cos (1 / 2)]]"
    by (simp add: make_symplectic_parameter_def unitary_to_orthogonal_1x1 einsum_ij_j_jk_def
        ncols_def mk_mat_def upt_rec Re_exp Im_exp)
  have c: "matmul (matmul (unitary_to_orthogonal [[exp (\<i> * complex_of_real 0)]])
            (linalg_diag (map (\<lambda>x. exp (- x)) [0] @ map exp [0])))
       (transpose_mat (unitary_to_orthogonal [[exp (\<i> * complex_of_real (1 / 2))]]))
     = [[cos (1 / 2), sin (1 / 2)], [- sin (1 / 2), cos (1 / 2)]]"
    by (simp add: unitary_to_orthogonal_1x1 linalg_diag_def transpose_mat_def matmul_def
        ncols_def mk_mat_def upt_rec Re_exp Im_exp)
  have "sin (1 / 2 :: real) \<noteq> - sin (1 / 2)" using sin_half_pos by simp
  then show ?thesis unfolding v c by simp
qed

section \<open>Gaussian state to generating function (TFCircuitBackend.sigma_Q, _Sigma_mu_C)\<close>

text \<open>
  \<open>tf.cast\<close> of a real matrix to complex, the slice \<open>M[:r, :c]\<close>, \<open>tf.linalg.matvec\<close> and
  \<open>tf.einsum('i,ij,j', b, M, c)\<close>.
\<close>

definition cast_complex :: "real mat \<Rightarrow> complex mat" where
  "cast_complex M = map (map complex_of_real) M"

definition slice2 :: "'a mat \<Rightarrow> nat \<Rightarrow> nat \<Rightarrow> 'a mat" where
  "slice2 M r c = map (take c) (take r M)"

definition matvec :: "complex mat \<Rightarrow> complex vec \<Rightarrow> complex vec" where
  "matvec M v = map (\<lambda>row. \<Sum>j = 0..<length v. row ! j * v ! j) M"

definition einsum_i_ij_j :: "complex vec \<Rightarrow> complex mat \<Rightarrow> complex vec \<Rightarrow> complex" where
  "einsum_i_ij_j b M c = (\<Sum>i = 0..<length b. \<Sum>j = 0..<length c. b ! i * M ! i ! j * c ! j)"

text \<open>
  \<open>sigma_Q\<close>. \<open>utils.rotmat\<close> is not among the sources: it is a parameter, already cast to
  complex. In the source \<open>(1 / hbar) * R @ cov @ conj(transpose(R))\<close> scales \<open>R\<close> first.
\<close>

definition sigma_Q :: "(nat \<Rightarrow> complex mat) \<Rightarrow> real mat \<Rightarrow> real \<Rightarrow> complex mat" where
  "sigma_Q rotmat cov hbar =
     (let l = ncols cov;
          R = rotmat (l div 2);
          sigma = matmul (matmul (smult (complex_of_real (1 / hbar)) R) (cast_complex cov))
                    (map (map cnj) (transpose_mat R))
      in madd sigma (smult (complex_of_real (1 / 2)) (eye l)))"

text \<open>
  \<open>_Sigma_mu_C\<close>. \<open>utils.Xmat\<close> is not among the sources and is a parameter, as are the
  library functions \<open>tf.linalg.inv\<close>, \<open>tf.linalg.det\<close> and the power of a complex number to
  a real exponent. \<open>tf.math.sqrt\<close> of a complex number is the principal square root.
  The function reads its arguments and assigns only to local names: its model is a
  function of the inputs, and the inputs are values that nothing can change.
\<close>

definition Sigma_mu_C ::
  "(nat \<Rightarrow> complex mat) \<Rightarrow> (nat \<Rightarrow> complex mat) \<Rightarrow> (complex mat \<Rightarrow> complex mat)
    \<Rightarrow> (complex mat \<Rightarrow> complex) \<Rightarrow> (complex \<Rightarrow> real \<Rightarrow> complex)
    \<Rightarrow> real mat \<Rightarrow> real vec \<Rightarrow> bool \<Rightarrow> real
    \<Rightarrow> complex mat \<times> complex vec \<times> complex" where
  "Sigma_mu_C rotmat Xmat linalg_inv linalg_det pow cov means mixed hbar =
     (let num_modes = length means div 2;
          N = num_modes + num_modes * (if mixed then 1 else 0);
          sQ = sigma_Q rotmat cov hbar;
          sQinv = linalg_inv sQ;
          A = matmul (Xmat num_modes) (msub (cast_complex (eye (2 * num_modes))) sQinv);
          alpha = map (\<lambda>z. z / complex_of_real (sqrt (2 * hbar)))
                    (map2 Complex (take num_modes means) (drop num_modes means));
          beta = alpha @ map cnj alpha;
          gamma = matvec (transpose_mat sQinv) (map cnj beta);
          T = exp (- (1 / 2) * einsum_i_ij_j beta sQinv (map cnj beta)) / csqrt (linalg_det sQ)
      in (map (map uminus) (slice2 A N N), take N gamma,
          pow T (1 / 2 + 1 / 2 * (if mixed then 1 else 0))))"

text \<open>
  Modelled from the spec: the triple in the words of the spec. \<open>sigma_Q = R cov R\<^sup>H / hbar + I / 2\<close>,
  \<open>A_full = X (I - sigma_Q\<^sup>-\<^sup>1)\<close>, \<open>alpha = (means_x + i means_p) / sqrt(2 hbar)\<close>,
  \<open>beta = concat(alpha, conj(alpha))\<close>, \<open>gamma = sigma_Q\<^sup>-\<^sup>T conj(beta)\<close>,
  \<open>T = exp(- beta\<^sup>T sigma_Q\<^sup>-\<^sup>1 conj(beta) / 2) / sqrt(det(sigma_Q))\<close> and \<open>C = T^(0.5 + 0.5 mixed)\<close>;
  a pure state keeps the top-left \<open>n \<times> n\<close> block of \<open>A_full\<close> and the first \<open>n\<close> entries of
  \<open>gamma\<close>, a mixed state keeps all of them, \<open>n\<close> being the number of modes.
\<close>

definition dot :: "complex vec \<Rightarrow> complex vec \<Rightarrow> complex" where
  "dot u v = (\<Sum>i = 0..<length u. u ! i * v ! i)"

definition gaussian_to_ABC_spec ::
  "(nat \<Rightarrow> complex mat) \<Rightarrow> (nat \<Rightarrow> complex mat) \<Rightarrow> (complex mat \<Rightarrow> complex mat)
    \<Rightarrow> (complex mat \<Rightarrow> complex) \<Rightarrow> (complex \<Rightarrow> real \<Rightarrow> complex)
    \<Rightarrow> real mat \<Rightarrow> real vec \<Rightarrow> bool \<Rightarrow> real
    \<Rightarrow> complex mat \<times> complex vec \<times> complex" where
  "gaussian_to_ABC_spec rotmat Xmat linalg_inv linalg_det pow cov means mixed hbar =
     (let n = length means div 2;
          R = rotmat n;
          sigma_Q = madd (smult (complex_of_real (1 / hbar))
                            (matmul (matmul R (cast_complex cov)) (adjoint R)))
                      (smult (1 / 2) (eye (2 * n)));
          sQinv = linalg_inv sigma_Q;
          A_full = matmul (Xmat n) (msub (eye (2 * n)) sQinv);
          alpha = map (\<lambda>k. Complex (means ! k) (means ! (k + n)) / complex_of_real (sqrt (2 * hbar)))
                    [0..<n];
          beta = alpha @ map cnj alpha;
          gamma = matvec (transpose_mat sQinv) (map cnj beta);
          T = exp (- (1 / 2) * dot beta (matvec sQinv (map cnj beta))) / csqrt (linalg_det sigma_Q);
          C = pow T (1 / 2 + 1 / 2 * (if mixed then 1 else 0))
      in if mixed then (smult (- 1) A_full, gamma, C)
         else (smult (- 1) (mk_mat n n (\<lambda>i j. A_full ! i ! j)), map (\<lambda>k. gamma ! k) [0..<n], C))"

text \<open>The inverse and the determinant of a \<open>2 \<times> 2\<close> matrix, for the one-mode example.\<close>

definition inv2 :: "complex mat \<Rightarrow> complex mat" where
  "inv2 M = (let a = M ! 0 ! 0; b = M ! 0 ! 1; c = M ! 1 ! 0; d = M ! 1 ! 1; D = a * d - b * c
     in [[d / D, - b / D], [- c / D, a / D]])"

definition det2 :: "complex mat \<Rightarrow> complex" where
  "det2 M = M ! 0 ! 0 * M ! 1 ! 1 - M ! 0 ! 1 * M ! 1 ! 0"

lemma sq_cast_complex [simp]: "sq N M \<Longrightarrow> sq N (cast_complex M)"
  by (simp add: cast_complex_def sq_def wf_mat_def list_all_length)

lemma cast_complex_eye: "cast_complex (eye N) = eye N"
  by (simp add: cast_complex_def eye_def mk_mat_def)

lemma sq_rows:
  assumes "sq N M"
  shows "length M = N" and "\<And>i. i < N \<Longrightarrow> length (M ! i) = N"
  using assms by (simp_all add: sq_def wf_mat_def list_all_length)

lemma uminus_eq_smult:
  fixes M :: "'a::comm_ring_1 mat"
  shows "map (map uminus) M = smult (- 1) M"
  by (simp add: smult_def)

lemma slice2_full:
  assumes "sq N M"
  shows "slice2 M N N = M"
proof -
  have "take N M = M" using sq_rows(1) [OF assms] by simp
  moreover have "map (take N) M = M"
    using sq_rows [OF assms] by (intro nth_equalityI) simp_all
  ultimately show ?thesis by (simp add: slice2_def)
qed

lemma slice2_block:
  assumes "sq (2 * n) M"
  shows "slice2 M n n = mk_mat n n (\<lambda>i j. M ! i ! j)"
proof (rule mat_eqI [of n n])
  have len: "length M = 2 * n" and row: "\<And>i. i < 2 * n \<Longrightarrow> length (M ! i) = 2 * n"
    using sq_rows [OF assms] by simp_all
  show "wf_mat n n (slice2 M n n)"
    using len row by (auto simp: slice2_def wf_mat_def list_all_length)
  show "wf_mat n n (mk_mat n n (\<lambda>i j. M ! i ! j))" by simp
  fix i j assume "i < n" "j < n"
  then show "slice2 M n n ! i ! j = mk_mat n n (\<lambda>i j. M ! i ! j) ! i ! j"
    using len by (simp add: slice2_def)
qed

lemma take_nth_upt: "n \<le> length xs \<Longrightarrow> take n xs = map (\<lambda>k. xs ! k) [0..<n]"
  by (intro nth_equalityI) simp_all

lemma alpha_index:
  assumes "length means = 2 * n"
  shows "map (\<lambda>z. z / s) (map2 Complex (take n means) (drop n means))
     = map (\<lambda>k. Complex (means ! k) (means ! (k + n)) / s) [0..<n]"
  using assms by (intro nth_equalityI) (simp_all add: add.commute)

lemma einsum_dot_matvec:
  assumes "length M = length b"
  shows "einsum_i_ij_j b M c = dot b (matvec M c)"
proof -
  have "dot b (matvec M c) = (\<Sum>i = 0..<length b. b ! i * (\<Sum>j = 0..<length c. M ! i ! j * c ! j))"
    unfolding dot_def using assms by (intro sum.cong refl) (simp add: matvec_def)
  also have "\<dots> = (\<Sum>i = 0..<length b. \<Sum>j = 0..<length c. b ! i * M ! i ! j * c ! j)"
    by (simp add: sum_distrib_left mult.assoc)
  finally show ?thesis by (simp add: einsum_i_ij_j_def)
qed

lemma sigma_Q_spec:
  assumes "sq (2 * n) cov" "sq (2 * n) (rotmat n)"
  shows "sigma_Q rotmat cov hbar
     = madd (smult (complex_of_real (1 / hbar))
               (matmul (matmul (rotmat n) (cast_complex cov)) (adjoint (rotmat n))))
         (smult (1 / 2) (eye (2 * n)))"
proof -
  let ?R = "rotmat n"
  let ?a = "complex_of_real (1 / hbar)"
  have l: "ncols cov = 2 * n" using assms(1) by (rule ncols_sq)
  have R: "sq (2 * n) ?R" and C: "sq (2 * n) (cast_complex cov)" using assms by simp_all
  have Ra: "sq (2 * n) (adjoint ?R)" using R by simp
  have "matmul (matmul (smult ?a ?R) (cast_complex cov)) (adjoint ?R)
      = matmul (smult ?a (matmul ?R (cast_complex cov))) (adjoint ?R)"
    using R C by (simp add: matmul_smult_left [of "2 * n"])
  also have "\<dots> = smult ?a (matmul (matmul ?R (cast_complex cov)) (adjoint ?R))"
    using R C Ra by (simp add: matmul_smult_left [of "2 * n"])
  finally show ?thesis
    by (simp add: sigma_Q_def Let_def l adjoint_def [symmetric])
qed

lemma length_matvec [simp]: "length (matvec M v) = length M"
  by (simp add: matvec_def)

text \<open>
  Claim C2. For a covariance matrix of size \<open>2n \<times> 2n\<close> and a means vector of length \<open>2n\<close>,
  with \<open>R\<close> and \<open>X\<close> of size \<open>2n \<times> 2n\<close> and a matrix inverse that keeps the size, the mapper
  returns the triple of the spec: \<open>- A_full\<close> and \<open>gamma\<close>, truncated to the first \<open>n\<close> when
  pure and in full when mixed, and \<open>C = T^(0.5 + 0.5 mixed)\<close>. It is a function of its inputs.
\<close>

theorem Sigma_mu_C_refines_spec:
  assumes "length means = 2 * n"
    and "sq (2 * n) cov"
    and "sq (2 * n) (rotmat n)" and "sq (2 * n) (Xmat n)"
    and "\<forall>M. sq (2 * n) M \<longrightarrow> sq (2 * n) (linalg_inv M)"
  shows "Sigma_mu_C rotmat Xmat linalg_inv linalg_det pow cov means mixed hbar
     = gaussian_to_ABC_spec rotmat Xmat linalg_inv linalg_det pow cov means mixed hbar"
proof -
  define sQ where "sQ = madd (smult (complex_of_real (1 / hbar))
               (matmul (matmul (rotmat n) (cast_complex cov)) (adjoint (rotmat n))))
         (smult (1 / 2) (eye (2 * n)))"
  define sQinv where "sQinv = linalg_inv sQ"
  define A where "A = matmul (Xmat n) (msub (eye (2 * n)) sQinv)"
  define alpha where "alpha = map (\<lambda>k. Complex (means ! k) (means ! (k + n))
      / complex_of_real (sqrt (2 * hbar))) [0..<n]"
  define beta where "beta = alpha @ map cnj alpha"
  define gamma where "gamma = matvec (transpose_mat sQinv) (map cnj beta)"
  have nm: "length means div 2 = n" using assms(1) by simp
  have s: "sigma_Q rotmat cov hbar = sQ"
    unfolding sQ_def using assms(2,3) by (rule sigma_Q_spec)
  have "sq (2 * n) sQ" unfolding sQ_def using assms(2,3) by simp
  then have qi: "sq (2 * n) sQinv" unfolding sQinv_def using assms(5) by blast
  have qA: "sq (2 * n) A" unfolding A_def using qi assms(4) by simp
  have lb: "length beta = 2 * n" by (simp add: beta_def alpha_def)
  have lg: "length gamma = 2 * n"
    unfolding gamma_def using sq_rows(1) [OF sq_transpose [OF qi]] by simp
  have a: "map (\<lambda>z. z / complex_of_real (sqrt (2 * hbar)))
        (map2 Complex (take n means) (drop n means)) = alpha"
    unfolding alpha_def using assms(1) by (rule alpha_index)
  have e: "einsum_i_ij_j beta sQinv (map cnj beta) = dot beta (matvec sQinv (map cnj beta))"
    using sq_rows(1) [OF qi] lb by (intro einsum_dot_matvec) simp
  have code: "Sigma_mu_C rotmat Xmat linalg_inv linalg_det pow cov means mixed hbar
     = (map (map uminus) (slice2 A (n + n * (if mixed then 1 else 0)) (n + n * (if mixed then 1 else 0))),
        take (n + n * (if mixed then 1 else 0)) gamma,
        pow (exp (- (1 / 2) * dot beta (matvec sQinv (map cnj beta))) / csqrt (linalg_det sQ))
          (1 / 2 + 1 / 2 * (if mixed then 1 else 0)))"
    unfolding Sigma_mu_C_def Let_def nm s cast_complex_eye a
    by (simp only: sQinv_def [symmetric] A_def [symmetric] beta_def [symmetric]
        gamma_def [symmetric] e)
  have spec: "gaussian_to_ABC_spec rotmat Xmat linalg_inv linalg_det pow cov means mixed hbar
     = (if mixed then (smult (- 1) A, gamma,
            pow (exp (- (1 / 2) * dot beta (matvec sQinv (map cnj beta))) / csqrt (linalg_det sQ))
              (1 / 2 + 1 / 2 * (if mixed then 1 else 0)))
        else (smult (- 1) (mk_mat n n (\<lambda>i j. A ! i ! j)), map (\<lambda>k. gamma ! k) [0..<n],
            pow (exp (- (1 / 2) * dot beta (matvec sQinv (map cnj beta))) / csqrt (linalg_det sQ))
              (1 / 2 + 1 / 2 * (if mixed then 1 else 0))))"
    unfolding gaussian_to_ABC_spec_def Let_def nm
    by (simp only: sQ_def [symmetric] sQinv_def [symmetric] A_def [symmetric] alpha_def [symmetric]
        beta_def [symmetric] gamma_def [symmetric])
  show ?thesis
  proof (cases mixed)
    case True
    have "slice2 A (2 * n) (2 * n) = A" using qA by (rule slice2_full)
    moreover have "take (2 * n) gamma = gamma" using lg by simp
    ultimately show ?thesis unfolding code spec using True
      by (simp add: uminus_eq_smult mult_2)
  next
    case False
    have "slice2 A n n = mk_mat n n (\<lambda>i j. A ! i ! j)" using qA by (rule slice2_block)
    moreover have "take n gamma = map (\<lambda>k. gamma ! k) [0..<n]"
      using lg by (intro take_nth_upt) simp
    ultimately show ?thesis unfolding code spec using False
      by (simp add: uminus_eq_smult)
  qed
qed

text \<open>
  One mode, \<open>hbar = 2\<close>, \<open>R = [[1, i], [1, -i]] / sqrt 2\<close>, \<open>X = [[0, 1], [1, 0]]\<close>: the coherent
  state with covariance matrix the identity and means \<open>[2, 0]\<close> has \<open>A = 0\<close>, \<open>B = 1\<close> and
  \<open>C = sqrt(exp(-1))\<close>.
\<close>

lemma rotmat_entry:
  fixes r :: complex
  assumes "r = complex_of_real (1 / sqrt 2)"
  shows "r * r = 1 / 2" "cnj r = r"
proof -
  have "(1 / sqrt 2) * (1 / sqrt 2) = (1 / 2 :: real)" by simp
  then have "complex_of_real ((1 / sqrt 2) * (1 / sqrt 2)) = complex_of_real (1 / 2)"
    by (rule arg_cong)
  then show "r * r = 1 / 2" unfolding assms of_real_mult by simp
  show "cnj r = r" unfolding assms by simp
qed

lemma sigma_Q_diag_entry:
  fixes r :: complex
  assumes "r * r = 1 / 2"
  shows "r / 2 * r + (\<i> * r / 2) * (- (\<i> * r)) = 1 / 2"
proof -
  have "r / 2 * r + (\<i> * r / 2) * (- (\<i> * r)) = (r * r) / 2 - (\<i> * \<i>) * (r * r) / 2"
    by (simp add: mult.assoc mult.left_commute)
  then show ?thesis unfolding assms by simp
qed

lemma sigma_Q_offdiag_entry:
  fixes r :: complex
  assumes "r * r = 1 / 2"
  shows "r / 2 * r + (\<i> * r / 2) * (\<i> * r) = 0"
proof -
  have "r / 2 * r + (\<i> * r / 2) * (\<i> * r) = (r * r) / 2 + (\<i> * \<i>) * (r * r) / 2"
    by (simp add: mult.assoc mult.left_commute)
  then show ?thesis unfolding assms by simp
qed

lemma sigma_Q_vacuum:
  fixes r :: complex
  assumes r: "r = complex_of_real (1 / sqrt 2)"
  shows "sigma_Q (\<lambda>n. [[r, \<i> * r], [r, - (\<i> * r)]]) [[1, 0], [0, 1]] 2 = [[1, 0], [0, 1]]"
proof -
  note rr = rotmat_entry [OF r]
  have t: "map (map cnj) (transpose_mat [[r, \<i> * r], [r, - (\<i> * r)]])
      = [[r, r], [- (\<i> * r), \<i> * r]]"
    by (simp add: transpose_mat_def ncols_def mk_mat_def upt_rec rr(2))
  have m1: "matmul (smult (complex_of_real (1 / 2)) [[r, \<i> * r], [r, - (\<i> * r)]])
        (cast_complex [[1, 0], [0, 1]])
      = [[r / 2, \<i> * r / 2], [r / 2, - (\<i> * r / 2)]]"
    by (simp add: matmul_def smult_def cast_complex_def ncols_def mk_mat_def upt_rec)
  have n1: "(- (\<i> * r / 2)) * (- (\<i> * r)) = (\<i> * r / 2) * (\<i> * r)"
    and n2: "(- (\<i> * r / 2)) * (\<i> * r) = (\<i> * r / 2) * (- (\<i> * r))"
    by simp_all
  have m2: "matmul [[r / 2, \<i> * r / 2], [r / 2, - (\<i> * r / 2)]] [[r, r], [- (\<i> * r), \<i> * r]]
      = [[r / 2 * r + (\<i> * r / 2) * (- (\<i> * r)), r / 2 * r + (\<i> * r / 2) * (\<i> * r)],
         [r / 2 * r + (\<i> * r / 2) * (\<i> * r), r / 2 * r + (\<i> * r / 2) * (- (\<i> * r))]]"
    unfolding n1 [symmetric] n2 [symmetric]
    by (simp add: matmul_def ncols_def mk_mat_def upt_rec)
  have m3: "madd [[1 / 2, 0], [0, 1 / 2]] (smult (complex_of_real (1 / 2)) (eye 2))
      = [[1, 0], [0, 1]]"
    by (simp add: madd_def smult_def eye_def mk_mat_def upt_rec)
  have l: "ncols [[1, 0], [0, 1 :: real]] = 2" by (simp add: ncols_def)
  show ?thesis
    unfolding sigma_Q_def Let_def l
    by (simp only: t m1 m2 sigma_Q_diag_entry [OF rr(1)] sigma_Q_offdiag_entry [OF rr(1)] m3 div_self)
qed

lemma Sigma_mu_C_coherent:
  fixes r :: complex
  assumes r: "r = complex_of_real (1 / sqrt 2)"
  shows "Sigma_mu_C (\<lambda>n. [[r, \<i> * r], [r, - (\<i> * r)]]) (\<lambda>n. [[0, 1], [1, 0]])
       inv2 det2 (\<lambda>z e. if e = 1 then z else csqrt z) [[1, 0], [0, 1]] [2, 0] False 2
     = ([[0]], [1], csqrt (exp (- 1)))"
proof -
  have s: "sigma_Q (\<lambda>n. [[r, \<i> * r], [r, - (\<i> * r)]]) [[1, 0], [0, 1]] 2 = [[1, 0], [0, 1]]"
    using r by (rule sigma_Q_vacuum)
  have i: "inv2 [[1, 0], [0, 1]] = [[1, 0], [0, 1]]"
    by (simp add: inv2_def Let_def)
  have d: "det2 [[1, 0], [0, 1]] = 1" by (simp add: det2_def)
  have n: "length [2, 0 :: real] div 2 = 1" by simp
  have A: "matmul [[0, 1], [1, 0]] (msub (cast_complex (eye (2 * 1))) [[1, 0], [0, 1 :: complex]])
      = [[0, 0], [0, 0]]"
    by (simp add: matmul_def msub_def cast_complex_def eye_def ncols_def mk_mat_def upt_rec)
  have al: "map (\<lambda>z. z / complex_of_real (sqrt (2 * 2)))
        (map2 Complex (take 1 [2, 0]) (drop 1 [2, 0])) = [1]"
    by (simp add: Complex_eq)
  have b: "[1] @ map cnj [1] = [1, 1 :: complex]" by simp
  have cb: "map cnj [1, 1 :: complex] = [1, 1]" by simp
  have g: "matvec (transpose_mat [[1, 0], [0, 1]]) [1, 1] = [1, 1]"
    by (simp add: matvec_def transpose_mat_def ncols_def mk_mat_def upt_rec numeral_2_eq_2)
  have e: "einsum_i_ij_j [1, 1] [[1, 0], [0, 1]] [1, 1] = 2"
    by (simp add: einsum_i_ij_j_def numeral_2_eq_2)
  have N: "1 + 1 * (if False then 1 else 0) = (1 :: nat)" by simp
  have sl: "map (map uminus) (slice2 [[0, 0], [0, 0 :: complex]] 1 1) = [[0]]"
    by (simp add: slice2_def)
  have tk: "take 1 [1, 1 :: complex] = [1]" by simp
  have T: "(if 1 / 2 + 1 / 2 * (if False then 1 else 0) = (1 :: real) then exp (- (1 / 2) * 2) / csqrt 1
       else csqrt (exp (- (1 / 2) * 2) / csqrt 1)) = csqrt (exp (- 1))"
    by simp
  show ?thesis
    unfolding Sigma_mu_C_def Let_def s i d n N A al b cb g e sl tk T ..
qed

theorem Sigma_mu_C_refines_spec_witness:
  "length [2, 0 :: real] = 2 * 1
   \<and> sq (2 * 1) [[1, 0], [0, 1 :: real]]
   \<and> sq (2 * 1) [[complex_of_real (1 / sqrt 2), \<i> * complex_of_real (1 / sqrt 2)],
                   [complex_of_real (1 / sqrt 2), - (\<i> * complex_of_real (1 / sqrt 2))]]
   \<and> sq (2 * 1) [[0, 1], [1, 0 :: complex]]
   \<and> (\<forall>M. sq (2 * 1) (inv2 M))
   \<and> gaussian_to_ABC_spec
        (\<lambda>n. [[complex_of_real (1 / sqrt 2), \<i> * complex_of_real (1 / sqrt 2)],
              [complex_of_real (1 / sqrt 2), - (\<i> * complex_of_real (1 / sqrt 2))]])
        (\<lambda>n. [[0, 1], [1, 0]]) inv2 det2 (\<lambda>z e. if e = 1 then z else csqrt z)
        [[1, 0], [0, 1]] [2, 0] False 2
      = ([[0]], [1], csqrt (exp (- 1)))"
proof -
  let ?R = "[[complex_of_real (1 / sqrt 2), \<i> * complex_of_real (1 / sqrt 2)],
             [complex_of_real (1 / sqrt 2), - (\<i> * complex_of_real (1 / sqrt 2))]]"
  have h1: "length [2, 0 :: real] = 2 * 1" by simp
  have h2: "sq (2 * 1) [[1, 0], [0, 1 :: real]]" by (simp add: sq_def wf_mat_def)
  have h3: "sq (2 * 1) ((\<lambda>n :: nat. ?R) 1)" by (simp add: sq_def wf_mat_def)
  have h4: "sq (2 * 1) ((\<lambda>n :: nat. [[0, 1], [1, 0 :: complex]]) 1)" by (simp add: sq_def wf_mat_def)
  have i: "\<forall>M. sq (2 * 1) (inv2 M)" by (simp add: inv2_def Let_def sq_def wf_mat_def)
  then have h5: "\<forall>M. sq (2 * 1) M \<longrightarrow> sq (2 * 1) (inv2 M)" by simp
  have "gaussian_to_ABC_spec (\<lambda>n. ?R) (\<lambda>n. [[0, 1], [1, 0]]) inv2 det2
        (\<lambda>z e. if e = 1 then z else csqrt z) [[1, 0], [0, 1]] [2, 0] False 2
      = Sigma_mu_C (\<lambda>n. ?R) (\<lambda>n. [[0, 1], [1, 0]]) inv2 det2
        (\<lambda>z e. if e = 1 then z else csqrt z) [[1, 0], [0, 1]] [2, 0] False 2"
    by (rule Sigma_mu_C_refines_spec [OF h1 h2 h3 h4 h5, symmetric])
  also have "\<dots> = ([[0]], [1], csqrt (exp (- 1)))"
    by (rule Sigma_mu_C_coherent [OF refl])
  finally have v: "gaussian_to_ABC_spec (\<lambda>n. ?R) (\<lambda>n. [[0, 1], [1, 0]]) inv2 det2
        (\<lambda>z e. if e = 1 then z else csqrt z) [[1, 0], [0, 1]] [2, 0] False 2
      = ([[0]], [1], csqrt (exp (- 1)))" .
  from h3 have h3': "sq (2 * 1) ?R" by simp
  from h4 have h4': "sq (2 * 1) [[0, 1], [1, 0 :: complex]]" by simp
  show ?thesis
    by (intro conjI) (rule h1, rule h2, rule h3', rule h4', rule i, rule v)
qed

end
